theory Spec2Isabelle
  imports Main
begin

section \<open>Constants and characters\<close>

text \<open>
  The constants of \<^verbatim>\<open>gopher_browser.cpp\<close> that the navigation, transport and parsing
  code reads. Sizes are natural numbers; \<^verbatim>\<open>sizeof(buffer) - 1\<close> is the most one
  \<^verbatim>\<open>recv\<close> can deliver.
\<close>

definition kMaxHistory :: nat where
  "kMaxHistory = 50"

definition kDefaultGopherPort :: int where
  "kDefaultGopherPort = 70"

definition kMaxResponseSize :: nat where
  "kMaxResponseSize = 512 * 1024"

definition kRecvMax :: nat where
  "kRecvMax = 4096 - 1"

abbreviation NUL :: char where "NUL \<equiv> CHR 0x00"
abbreviation TAB :: char where "TAB \<equiv> CHR 0x09"
abbreviation LF :: char where "LF \<equiv> CHR 0x0A"
abbreviation CR :: char where "CR \<equiv> CHR 0x0D"

section \<open>Data structures\<close>

text \<open>
  The fields of the three structs carry the struct's name as a prefix (\<open>item_host\<close>,
  \<open>entry_host\<close>, \<open>page_host\<close>), the parameters \<^verbatim>\<open>host\<close>, \<^verbatim>\<open>selector\<close> and \<^verbatim>\<open>port\<close> of the
  functions keep their names. \<open>item_port\<close> is \<open>None\<close> while the field holds no defined
  value: \<^verbatim>\<open>parse_text_file\<close> declares a local item and sets only its type and display,
  and \<^verbatim>\<open>parse_gopher_line\<close> assigns what \<^verbatim>\<open>atoi\<close> returns, which C leaves undefined for a
  port string outside \<^verbatim>\<open>int\<close>.
\<close>

record GopherItem =
  item_type :: char
  item_display :: string
  item_selector :: string
  item_host :: string
  item_port :: "int option"

record HistoryEntry =
  entry_host :: string
  entry_selector :: string
  entry_port :: int

record GopherPage =
  page_host :: string
  page_selector :: string
  page_port :: int
  items :: "GopherItem list"
  raw_text :: string
  is_menu :: bool

text \<open>
  The application state: the globals that navigation reads and writes. The layout
  globals of the renderer (\<^verbatim>\<open>scroll_offset\<close>, \<^verbatim>\<open>visible_lines\<close>, the header and content
  bounds) are written by navigation but never flow back into the fields below; they are
  left to the renderer.
\<close>

record browser =
  current_page :: GopherPage
  history :: "HistoryEntry list"
  selected_index :: int
  is_loading :: bool
  status_message :: string

definition is_selectable :: "GopherItem \<Rightarrow> bool" where
  "is_selectable item \<longleftrightarrow>
     item_type item \<noteq> CHR ''i'' \<and> item_type item \<noteq> CHR ''3'' \<and>
     item_type item \<noteq> CHR ''+'' \<and> item_type item \<noteq> CHR ''2'' \<and>
     item_type item \<noteq> CHR ''8'' \<and> item_type item \<noteq> CHR ''T''"

section \<open>History\<close>

text \<open>
  \<^verbatim>\<open>while (history.size() > kMaxHistory) history.erase(history.begin());\<close>
\<close>

function limit_history :: "HistoryEntry list \<Rightarrow> HistoryEntry list" where
  "limit_history h = (if length h > kMaxHistory then limit_history (tl h) else h)"
  by pat_completeness auto
termination
  by (relation "measure length") (auto simp: kMaxHistory_def)

declare limit_history.simps [simp del]

definition page_entry :: "GopherPage \<Rightarrow> HistoryEntry" where
  "page_entry p =
     \<lparr>entry_host = page_host p, entry_selector = page_selector p, entry_port = page_port p\<rparr>"

definition push_entry :: "HistoryEntry \<Rightarrow> HistoryEntry list \<Rightarrow> HistoryEntry list" where
  "push_entry entry h = limit_history (h @ [entry])"

definition push_history :: "browser \<Rightarrow> browser" where
  "push_history s = s\<lparr>history := push_entry (page_entry (current_page s)) (history s)\<rparr>"

section \<open>Utility functions\<close>

text \<open>
  \<^verbatim>\<open>set_status\<close> copies at most 255 characters into the 256-byte buffer. A
  \<^verbatim>\<open>const char *\<close> argument is represented by the characters before its terminator;
  \<open>c_str\<close> is what a \<^verbatim>\<open>std::string\<close> (or a filled buffer) yields when it is read as a
  C string.
\<close>

definition set_status :: "string \<Rightarrow> browser \<Rightarrow> browser" where
  "set_status msg s = s\<lparr>status_message := take 255 msg\<rparr>"

definition c_str :: "string \<Rightarrow> string" where
  "c_str s = takeWhile (\<lambda>c. c \<noteq> NUL) s"

definition is_trim_char :: "char \<Rightarrow> bool" where
  "is_trim_char c \<longleftrightarrow> c = CHR '' '' \<or> c = TAB \<or> c = CR \<or> c = LF"

definition trim :: "string \<Rightarrow> string" where
  "trim s =
     (case dropWhile is_trim_char s of
        [] \<Rightarrow> []
      | c # cs \<Rightarrow> rev (dropWhile is_trim_char (rev (c # cs))))"

fun split_loop :: "string \<Rightarrow> char \<Rightarrow> string \<Rightarrow> string list \<Rightarrow> string list" where
  "split_loop [] delim token result = result @ [token]"
| "split_loop (c # cs) delim token result =
     (if c = delim then split_loop cs delim [] (result @ [token])
      else split_loop cs delim (token @ [c]) result)"

definition split :: "string \<Rightarrow> char \<Rightarrow> string list" where
  "split s delim = split_loop s delim [] []"

text \<open>
  \<^verbatim>\<open>atoi\<close> of the C library: leading white space, an optional sign, then decimal
  digits up to the first other character. For a value outside \<^verbatim>\<open>int\<close> ISO C leaves the
  behaviour undefined, and the libraries differ (one saturates, another wraps): the
  conversion then has no value here, \<open>None\<close>.
\<close>

definition is_space :: "char \<Rightarrow> bool" where
  "is_space c \<longleftrightarrow>
     c = CHR '' '' \<or> c = TAB \<or> c = LF \<or> c = CHR 0x0B \<or> c = CHR 0x0C \<or> c = CR"

definition is_digit :: "char \<Rightarrow> bool" where
  "is_digit c \<longleftrightarrow> (48::nat) \<le> of_char c \<and> (of_char c :: nat) \<le> 57"

definition in_int_range :: "int \<Rightarrow> int option" where
  "in_int_range v = (if - 2147483648 \<le> v \<and> v \<le> 2147483647 then Some v else None)"

fun atoi_digits :: "string \<Rightarrow> int \<Rightarrow> int" where
  "atoi_digits [] acc = acc"
| "atoi_digits (c # cs) acc =
     (if is_digit c then atoi_digits cs (acc * 10 + (of_char c - 48)) else acc)"

definition atoi :: "string \<Rightarrow> int option" where
  "atoi s =
     (case dropWhile is_space s of
        [] \<Rightarrow> Some 0
      | c # cs \<Rightarrow>
          if c = CHR ''-'' then in_int_range (- atoi_digits cs 0)
          else if c = CHR ''+'' then in_int_range (atoi_digits cs 0)
          else in_int_range (atoi_digits (c # cs) 0))"

section \<open>Network functions\<close>

text \<open>
  The network is a parameter. Resolving and connecting to a host and port either fails
  at one of three stages or gives a socket; on a socket, sending the request either fails
  or is followed by the data the peer delivers, segment by segment, until it closes the
  stream or a \<^verbatim>\<open>recv\<close> fails (the end of the list; an empty segment is a \<^verbatim>\<open>recv\<close> that
  returns 0).
\<close>

datatype peer = SendFails | Replies "string list"

datatype conn = DnsFails | SocketFails | ConnectFails | Connects "string \<Rightarrow> peer"

type_synonym network = "string \<Rightarrow> int \<Rightarrow> conn"

definition connect_to_host ::
  "network \<Rightarrow> string \<Rightarrow> int \<Rightarrow> browser \<Rightarrow> (string \<Rightarrow> peer) option \<times> browser" where
  "connect_to_host net hostname port s =
     (case net hostname port of
        DnsFails \<Rightarrow> (None, set_status ''DNS resolution failed'' s)
      | SocketFails \<Rightarrow> (None, set_status ''Failed to create socket'' s)
      | ConnectFails \<Rightarrow> (None, set_status ''Connection failed'' s)
      | Connects sockfd \<Rightarrow> (Some sockfd, s))"

text \<open>
  The receive loop. One \<^verbatim>\<open>recv\<close> takes at most \<open>kRecvMax\<close> bytes of the segment at
  the head and leaves the rest pending; \<^verbatim>\<open>response += buffer\<close> appends the buffer as a
  C string. The second component tells whether the loop ended at the safety limit.
\<close>

function recv_loop :: "string list \<Rightarrow> string \<Rightarrow> string \<times> bool" where
  "recv_loop [] response = (response, False)"
| "recv_loop (seg # rest) response =
     (let buffer = take kRecvMax seg;
          pending = (if length seg > kRecvMax then drop kRecvMax seg # rest else rest)
      in if length buffer = 0 then (response, False)
         else
           (let response' = response @ c_str buffer
            in if length response' > kMaxResponseSize then (response', True)
               else recv_loop pending response'))"
  by pat_completeness auto
termination
  by (relation "measure (\<lambda>(segs, response). length (concat segs) + length segs)")
     (auto simp: kRecvMax_def)

declare recv_loop.simps [simp del]

definition fetch_gopher ::
  "network \<Rightarrow> string \<Rightarrow> string \<Rightarrow> int \<Rightarrow> browser \<Rightarrow> string \<times> browser" where
  "fetch_gopher net host selector port s =
     (case connect_to_host net host port s of
        (None, s1) \<Rightarrow> ([], s1)
      | (Some sockfd, s1) \<Rightarrow>
          (case sockfd (selector @ [CR, LF]) of
             SendFails \<Rightarrow> ([], set_status ''Failed to send request'' s1)
           | Replies segs \<Rightarrow>
               (case recv_loop segs [] of
                  (response, too_large) \<Rightarrow>
                    (response, if too_large then set_status ''Response too large'' s1 else s1))))"

section \<open>Gopher protocol parsing\<close>

definition parse_gopher_line :: "string \<Rightarrow> GopherItem" where
  "parse_gopher_line line =
     (if line = [] then
        \<lparr>item_type = CHR ''i'', item_display = [], item_selector = [], item_host = [],
         item_port = Some kDefaultGopherPort\<rparr>
      else
        (let parts = split (tl line) TAB in
         \<lparr>item_type = hd line,
          item_display = (if length parts \<ge> 1 then parts ! 0 else []),
          item_selector = (if length parts \<ge> 2 then parts ! 1 else []),
          item_host = (if length parts \<ge> 3 then parts ! 2 else []),
          item_port =
            (if length parts \<ge> 4 then
               (let port_str = trim (parts ! 3) in
                if port_str \<noteq> [] then
                  (case atoi (c_str port_str) of
                     None \<Rightarrow> None
                   | Some p \<Rightarrow> Some (if p \<le> 0 then kDefaultGopherPort else p))
                else Some kDefaultGopherPort)
             else Some kDefaultGopherPort)\<rparr>))"

definition strip_cr :: "string \<Rightarrow> string" where
  "strip_cr line = (if line \<noteq> [] \<and> last line = CR then butlast line else line)"

text \<open>
  The character loop of \<^verbatim>\<open>parse_gopher_menu\<close>: the pending line and the items so far
  are the loop's variables; the result is their value when the loop ends, by the end of
  the response or by \<^verbatim>\<open>break\<close> at the end marker (the pending line is then the marker).
\<close>

fun menu_loop :: "string \<Rightarrow> string \<Rightarrow> GopherItem list \<Rightarrow> string \<times> GopherItem list" where
  "menu_loop [] line its = (line, its)"
| "menu_loop (c # cs) line its =
     (if c = LF then
        (let line1 = strip_cr line in
         if line1 = ''.'' then (line1, its)
         else menu_loop cs [] (if line1 \<noteq> [] then its @ [parse_gopher_line line1] else its))
      else menu_loop cs (line @ [c]) its)"

definition parse_gopher_menu :: "string \<Rightarrow> GopherPage \<Rightarrow> GopherPage" where
  "parse_gopher_menu response page =
     (case menu_loop response [] [] of
        (line, its) \<Rightarrow>
          page\<lparr>items :=
                 (if line \<noteq> [] \<and> line \<noteq> ''.'' then its @ [parse_gopher_line line] else its),
               is_menu := True\<rparr>)"

definition info_item :: "string \<Rightarrow> GopherItem" where
  "info_item line =
     \<lparr>item_type = CHR ''i'', item_display = line, item_selector = [], item_host = [],
      item_port = None\<rparr>"

fun text_loop :: "string \<Rightarrow> string \<Rightarrow> GopherItem list \<Rightarrow> string \<times> GopherItem list" where
  "text_loop [] line its = (line, its)"
| "text_loop (c # cs) line its =
     (if c = LF then
        (let line1 = strip_cr line in
         if line1 = ''.'' then (line1, its)
         else text_loop cs [] (its @ [info_item line1]))
      else text_loop cs (line @ [c]) its)"

definition parse_text_file :: "string \<Rightarrow> GopherPage \<Rightarrow> GopherPage" where
  "parse_text_file response page =
     (case text_loop response [] [] of
        (line, its) \<Rightarrow>
          page\<lparr>items := (if line \<noteq> [] \<and> line \<noteq> ''.'' then its @ [info_item line] else its),
               raw_text := response,
               is_menu := False\<rparr>)"

section \<open>Navigation\<close>

text \<open>
  The loop that follows a successful load, in \<^verbatim>\<open>navigate_to\<close> and in \<^verbatim>\<open>go_back\<close>:
  \<^verbatim>\<open>selected_index = -1\<close>, then the first \<open>i\<close> from 0 whose item is selectable.
\<close>

function first_selectable :: "GopherItem list \<Rightarrow> nat \<Rightarrow> int" where
  "first_selectable its i =
     (if i < length its then
        (if is_selectable (its ! i) then int i else first_selectable its (i + 1))
      else - 1)"
  by pat_completeness auto
termination
  by (relation "measure (\<lambda>(its, i). length its - i)") auto

declare first_selectable.simps [simp del]

definition go_back :: "network \<Rightarrow> browser \<Rightarrow> bool \<times> browser" where
  "go_back net s =
     (if history s = [] then (False, s)
      else
        (let entry = last (history s);
             s1 = s\<lparr>history := butlast (history s)\<rparr>;
             s2 = s1\<lparr>current_page := (current_page s1)
                    \<lparr>page_host := entry_host entry,
                     page_selector := entry_selector entry,
                     page_port := entry_port entry\<rparr>\<rparr>;
             s3 = (set_status ''Loading...'' s2)\<lparr>is_loading := True\<rparr>
         in case fetch_gopher net (c_str (entry_host entry)) (c_str (entry_selector entry))
                   (entry_port entry) s3 of
              (response, s4) \<Rightarrow>
                (let s5 = s4\<lparr>is_loading := False\<rparr>
                 in if response = [] then (False, set_status ''Failed to load page'' s5)
                    else
                      (let page = parse_gopher_menu response (current_page s5);
                           s6 = s5\<lparr>current_page := page,
                                   selected_index := first_selectable (items page) 0\<rparr>
                       in (True, set_status [] s6)))))"

definition navigate_to :: "network \<Rightarrow> string \<Rightarrow> string \<Rightarrow> int \<Rightarrow> char \<Rightarrow> browser \<Rightarrow> browser" where
  "navigate_to net host selector port expected_type s =
     (let s1 = (if page_host (current_page s) \<noteq> [] then push_history s else s);
          s2 = s1\<lparr>current_page := (current_page s1)
                 \<lparr>page_host := host, page_selector := selector, page_port := port\<rparr>\<rparr>;
          s3 = (set_status ''Connecting...'' s2)\<lparr>is_loading := True\<rparr>
      in case fetch_gopher net host selector port s3 of
           (response, s4) \<Rightarrow>
             (let s5 = s4\<lparr>is_loading := False\<rparr>
              in if response = [] then set_status ''Failed to load page'' s5
                 else
                   (let page = (if expected_type = CHR ''0'' \<or> expected_type = CHR ''h''
                                then parse_text_file response (current_page s5)
                                else parse_gopher_menu response (current_page s5));
                        s6 = s5\<lparr>current_page := page,
                                selected_index := first_selectable (items page) 0\<rparr>
                    in set_status [] s6)))"

text \<open>
  The state at start-up: the globals as C++ initialises them.
\<close>

definition initial_state :: browser where
  "initial_state =
     \<lparr>current_page =
        \<lparr>page_host = [], page_selector = [], page_port = 0, items = [], raw_text = [],
         is_menu = False\<rparr>,
      history = [], selected_index = - 1, is_loading = False, status_message = []\<rparr>"

section \<open>Selection movement\<close>

text \<open>
  The three loops of \<^verbatim>\<open>move_selection\<close>. A loop either finds an index, or runs out of
  its range, or is \<open>Stuck\<close>: it never ends (a step of 0 on an item that is not
  selectable) or it reads \<^verbatim>\<open>items\<close> outside the vector, which C++ leaves undefined.
  A stuck loop gives the call no result.
\<close>

datatype scan = Found int | Exhausted | Stuck

function scan_direction :: "GopherItem list \<Rightarrow> int \<Rightarrow> int \<Rightarrow> scan" where
  "scan_direction its direction new_index =
     (if 0 \<le> new_index \<and> new_index < int (length its) then
        (if is_selectable (its ! nat new_index) then Found new_index
         else if direction = 0 then Stuck
         else scan_direction its direction (new_index + direction))
      else Exhausted)"
  by pat_completeness auto
termination
  by (relation "measure (\<lambda>(its, direction, new_index).
        if 0 < direction then nat (int (length its) - new_index) else nat (new_index + 1))")
     auto

declare scan_direction.simps [simp del]

function wrap_from_start :: "GopherItem list \<Rightarrow> int \<Rightarrow> int \<Rightarrow> scan" where
  "wrap_from_start its selected i =
     (if i < selected then
        (if 0 \<le> i \<and> i < int (length its) then
           (if is_selectable (its ! nat i) then Found i
            else wrap_from_start its selected (i + 1))
         else Stuck)
      else Exhausted)"
  by pat_completeness auto
termination
  by (relation "measure (\<lambda>(its, selected, i). nat (selected - i))") auto

declare wrap_from_start.simps [simp del]

function wrap_from_end :: "GopherItem list \<Rightarrow> int \<Rightarrow> int \<Rightarrow> scan" where
  "wrap_from_end its selected i =
     (if i > selected then
        (if 0 \<le> i \<and> i < int (length its) then
           (if is_selectable (its ! nat i) then Found i
            else wrap_from_end its selected (i - 1))
         else Stuck)
      else Exhausted)"
  by pat_completeness auto
termination
  by (relation "measure (\<lambda>(its, selected, i). nat (i - selected))") auto

declare wrap_from_end.simps [simp del]

definition move_selection :: "int \<Rightarrow> browser \<Rightarrow> browser option" where
  "move_selection direction s =
     (let its = items (current_page s); items_count = int (length its)
      in if items_count = 0 then Some s
         else
           (case scan_direction its direction (selected_index s + direction) of
              Found i \<Rightarrow> Some (s\<lparr>selected_index := i\<rparr>)
            | Stuck \<Rightarrow> None
            | Exhausted \<Rightarrow>
                (case (if direction > 0 then wrap_from_start its (selected_index s) 0
                       else wrap_from_end its (selected_index s) (items_count - 1)) of
                   Found i \<Rightarrow> Some (s\<lparr>selected_index := i\<rparr>)
                 | Stuck \<Rightarrow> None
                 | Exhausted \<Rightarrow> Some s)))"

section \<open>Reachable states\<close>

text \<open>
  The states the application can be in: the state at start-up, and every state that
  \<^verbatim>\<open>navigate_to\<close>, \<^verbatim>\<open>go_back\<close> or \<^verbatim>\<open>move_selection\<close> (one step up or down) returns
  from a reachable state, whatever the network does.
\<close>

inductive reachable :: "browser \<Rightarrow> bool" where
  reachable_initial: "reachable initial_state"
| reachable_navigate:
    "reachable s \<Longrightarrow> reachable (navigate_to net host selector port expected_type s)"
| reachable_back: "reachable s \<Longrightarrow> reachable (snd (go_back net s))"
| reachable_move:
    "reachable s \<Longrightarrow> direction = 1 \<or> direction = - 1 \<Longrightarrow>
     move_selection direction s = Some s' \<Longrightarrow> reachable s'"

section \<open>Concrete inputs\<close>

text \<open>
  Inputs on which the theorems below are instantiated.
\<close>

definition numbered_entry :: "nat \<Rightarrow> HistoryEntry" where
  "numbered_entry n =
     \<lparr>entry_host = ''gopher.floodgap.com'', entry_selector = ''/'', entry_port = int n\<rparr>"

definition full_history_state :: browser where
  "full_history_state =
     initial_state\<lparr>history := map numbered_entry [0..<50],
                    current_page := (current_page initial_state)
                      \<lparr>page_host := ''sdf.org'', page_selector := ''/'', page_port := 70\<rparr>\<rparr>"

definition dead_net :: network where
  "dead_net hostname port = ConnectFails"

definition menu_response :: string where
  "menu_response =
     ''1A'' @ [TAB] @ ''foo'' @ [TAB] @ ''ex.com'' @ [TAB] @ ''70'' @ [CR, LF] @
     ''.'' @ [CR, LF] @
     ''1B'' @ [TAB] @ ''bar'' @ [TAB] @ ''ex.com'' @ [TAB] @ ''70'' @ [CR, LF]"

definition menu_net :: network where
  "menu_net hostname port = Connects (\<lambda>request. Replies [menu_response])"

definition link_item :: "string \<Rightarrow> GopherItem" where
  "link_item name =
     \<lparr>item_type = CHR ''1'', item_display = name, item_selector = CHR ''/'' # name,
      item_host = ''ex.com'', item_port = Some 70\<rparr>"

definition four_items :: "GopherItem list" where
  "four_items = [info_item ''about'', link_item ''A'', info_item ''more'', link_item ''B'']"

definition menu_state :: browser where
  "menu_state =
     \<lparr>current_page =
        \<lparr>page_host = ''ex.com'', page_selector = ''/'', page_port = 70, items = four_items,
         raw_text = [], is_menu = True\<rparr>,
      history = [numbered_entry 70], selected_index = 1, is_loading = False,
      status_message = []\<rparr>"

definition text_state :: browser where
  "text_state =
     \<lparr>current_page =
        \<lparr>page_host = ''sdf.org'', page_selector = ''/motd'', page_port = 70,
         items = [info_item ''hello''], raw_text = ''hello'', is_menu = False\<rparr>,
      history = [numbered_entry 70], selected_index = - 1, is_loading = False,
      status_message = []\<rparr>"

definition pushed_history :: "browser \<Rightarrow> HistoryEntry list" where
  "pushed_history s =
     (if page_host (current_page s) \<noteq> [] then push_entry (page_entry (current_page s)) (history s)
      else history s)"

section \<open>The lines of a response\<close>

text \<open>
  Two views of a response. The lines ended by a line feed, each with one trailing
  carriage return removed, and what follows the last line feed, are common to both.

  \<open>spec_lines\<close> is the specification's view, the reference the parsers are compared
  with: the response is split into lines on line feeds, one trailing carriage return is
  stripped from every line, a last line without a line feed is handled as a terminated
  one, and everything from the first line that is exactly the end marker on is
  discarded.

  \<open>flushed_lines\<close> is what the two loops and the flush after them go through, used to
  reason about the code: the terminated lines before the first end marker, closed by
  the unterminated rest as the flush takes it, without stripping, when there is no
  marker and the rest is neither empty nor the marker.
\<close>

definition terminated_lines :: "string \<Rightarrow> string list" where
  "terminated_lines response = map strip_cr (butlast (split response LF))"

definition pending_line :: "string \<Rightarrow> string" where
  "pending_line response = last (split response LF)"

definition spec_lines :: "string \<Rightarrow> string list" where
  "spec_lines response =
     takeWhile (\<lambda>l. l \<noteq> ''.'')
       (terminated_lines response @
        (if pending_line response = [] then [] else [strip_cr (pending_line response)]))"

definition flushed_lines :: "string \<Rightarrow> string list" where
  "flushed_lines response =
     takeWhile (\<lambda>l. l \<noteq> ''.'') (terminated_lines response) @
     (if ''.'' \<in> set (terminated_lines response) \<or> pending_line response = []
         \<or> pending_line response = ''.''
      then [] else [pending_line response])"



definition flood_segment :: string where
  "flood_segment = replicate 4095 (CHR ''a'')"

definition flood_net :: network where
  "flood_net hostname port = Connects (\<lambda>request. Replies (replicate 200 flood_segment))"

section \<open>The selection, as the specification words it\<close>

text \<open>
  The reference view of a selection step, to compare \<^verbatim>\<open>move_selection\<close> with: the
  indices in the order the specification visits them (from the index next to the
  selection to the end of the list in the direction of the step, then from the other
  end up to, not including, the selection), and the first of them whose item is
  selectable, the selection itself when there is none.
\<close>

definition visit_order :: "int \<Rightarrow> int \<Rightarrow> int \<Rightarrow> int list" where
  "visit_order items_count selected direction =
     (if direction > 0 then [selected + 1 .. items_count - 1] @ [0 .. selected - 1]
      else rev [0 .. selected - 1] @ rev [selected + 1 .. items_count - 1])"

definition nearest_selectable :: "GopherItem list \<Rightarrow> int \<Rightarrow> int \<Rightarrow> int" where
  "nearest_selectable its selected direction =
     (case find (\<lambda>i. is_selectable (its ! nat i))
             (visit_order (int (length its)) selected direction) of
        Some i \<Rightarrow> i
      | None \<Rightarrow> selected)"

text \<open>
  The selection is valid when it is \<open>-1\<close> or the index of a selectable item of the page.
\<close>

definition selection_valid :: "browser \<Rightarrow> bool" where
  "selection_valid s \<longleftrightarrow>
     selected_index s = - 1 \<or>
     (0 \<le> selected_index s \<and> selected_index s < int (length (items (current_page s)))
      \<and> is_selectable (items (current_page s) ! nat (selected_index s)))"

section \<open>Properties of the history\<close>

lemma limit_history_drop: "limit_history h = drop (length h - kMaxHistory) h"
proof (induction h rule: limit_history.induct)
  case (1 h)
  show ?case
  proof (cases "length h > kMaxHistory")
    case True
    then obtain x xs where h: "h = x # xs" by (cases h) auto
    from True have "limit_history h = limit_history (tl h)"
      by (subst limit_history.simps) simp
    also have "\<dots> = drop (length (tl h) - kMaxHistory) (tl h)" using 1 True by simp
    also have "\<dots> = drop (length h - kMaxHistory) h"
      using True h by (simp add: Suc_diff_le)
    finally show ?thesis .
  next
    case False
    then show ?thesis by (subst limit_history.simps) simp
  qed
qed

lemma push_entry_drop:
  "push_entry e h = drop (Suc (length h) - kMaxHistory) (h @ [e])"
  by (simp add: push_entry_def limit_history_drop)

lemma length_push_entry: "length (push_entry e h) \<le> kMaxHistory"
  by (simp add: push_entry_drop kMaxHistory_def)

lemma push_entry_below: "length h < kMaxHistory \<Longrightarrow> push_entry e h = h @ [e]"
  by (simp add: push_entry_drop)

lemma push_entry_full: "length h = kMaxHistory \<Longrightarrow> push_entry e h = tl h @ [e]"
  by (cases h) (simp_all add: push_entry_drop kMaxHistory_def)

lemma last_push_entry: "push_entry e h \<noteq> [] \<and> last (push_entry e h) = e"
  by (simp add: push_entry_drop kMaxHistory_def)

lemma pushes_drop:
  "foldl (\<lambda>h e. push_entry e h) [] es = drop (length es - kMaxHistory) es"
proof (induction es rule: rev_induct)
  case Nil
  show ?case by simp
next
  case (snoc e es)
  show ?case
  proof (cases "length es \<le> kMaxHistory")
    case True
    with snoc show ?thesis by (simp add: push_entry_drop)
  next
    case False
    then have "length (drop (length es - kMaxHistory) es) = kMaxHistory" by simp
    with snoc False show ?thesis
      by (simp add: push_entry_drop Suc_diff_le drop_Suc tl_drop)
  qed
qed

section \<open>What a fetch leaves alone\<close>

text \<open>
  \<^verbatim>\<open>fetch_gopher\<close> writes the status message and nothing else, and its response does
  not depend on the state it is called in.
\<close>

lemma history_set_status [simp]: "history (set_status m s) = history s"
  by (simp add: set_status_def)

lemma fetch_gopher_frame:
  "\<exists>m. snd (fetch_gopher net host selector port s) = s\<lparr>status_message := m\<rparr>"
proof (cases "net host port")
  case (Connects sockfd)
  show ?thesis
  proof (cases "sockfd (selector @ [CR, LF])")
    case SendFails
    with Connects show ?thesis
      by (auto simp: fetch_gopher_def connect_to_host_def set_status_def)
  next
    case (Replies segs)
    obtain r b where rb: "recv_loop segs [] = (r, b)" by (cases "recv_loop segs []")
    show ?thesis
    proof (cases b)
      case True
      with Connects Replies rb show ?thesis
        by (auto simp: fetch_gopher_def connect_to_host_def set_status_def)
    next
      case False
      with Connects Replies rb have "snd (fetch_gopher net host selector port s) = s"
        by (simp add: fetch_gopher_def connect_to_host_def)
      then have "snd (fetch_gopher net host selector port s) = s\<lparr>status_message := status_message s\<rparr>"
        by simp
      then show ?thesis by blast
    qed
  qed
qed (auto simp: fetch_gopher_def connect_to_host_def set_status_def)

lemma fetch_gopher_response:
  "fst (fetch_gopher net host selector port s) = fst (fetch_gopher net host selector port t)"
  by (simp add: fetch_gopher_def connect_to_host_def split: conn.splits peer.splits prod.splits)

lemma history_navigate_to:
  "history (navigate_to net host selector port expected_type s) =
     (if page_host (current_page s) \<noteq> [] then push_entry (page_entry (current_page s)) (history s)
      else history s)"
proof -
  define s3 where "s3 = (set_status ''Connecting...''
     ((if page_host (current_page s) \<noteq> [] then push_history s else s)
        \<lparr>current_page := (current_page (if page_host (current_page s) \<noteq> [] then push_history s else s))
                 \<lparr>page_host := host, page_selector := selector, page_port := port\<rparr>\<rparr>))\<lparr>is_loading := True\<rparr>"
  obtain m where m: "snd (fetch_gopher net host selector port s3) = s3\<lparr>status_message := m\<rparr>"
    using fetch_gopher_frame by blast
  obtain r s4 where f: "fetch_gopher net host selector port s3 = (r, s4)"
    by (cases "fetch_gopher net host selector port s3")
  with m have s4: "s4 = s3\<lparr>status_message := m\<rparr>" by simp
  have "history (navigate_to net host selector port expected_type s) = history s3"
    unfolding navigate_to_def Let_def s3_def [symmetric] f
    by (simp add: s4)
  then show ?thesis by (simp add: s3_def push_history_def)
qed

lemma history_go_back:
  "history (snd (go_back net s)) = butlast (history s)"
proof (cases "history s = []")
  case True
  then show ?thesis by (simp add: go_back_def)
next
  case False
  define e where "e = last (history s)"
  define s3 where "s3 = (set_status ''Loading...''
     (s\<lparr>history := butlast (history s)\<rparr>
        \<lparr>current_page := (current_page (s\<lparr>history := butlast (history s)\<rparr>))
                 \<lparr>page_host := entry_host e, page_selector := entry_selector e,
                  page_port := entry_port e\<rparr>\<rparr>))\<lparr>is_loading := True\<rparr>"
  obtain m where m: "snd (fetch_gopher net (c_str (entry_host e)) (c_str (entry_selector e)) (entry_port e) s3) = s3\<lparr>status_message := m\<rparr>"
    using fetch_gopher_frame by blast
  obtain r s4 where f: "fetch_gopher net (c_str (entry_host e)) (c_str (entry_selector e)) (entry_port e) s3 = (r, s4)"
    by (cases "fetch_gopher net (c_str (entry_host e)) (c_str (entry_selector e)) (entry_port e) s3")
  with m have s4: "s4 = s3\<lparr>status_message := m\<rparr>" by simp
  have "history (snd (go_back net s)) = history s3"
    using False unfolding go_back_def Let_def e_def [symmetric] s3_def [symmetric] f
    by (simp add: s4)
  then show ?thesis by (simp add: s3_def)
qed

lemma history_move_selection:
  "move_selection direction s = Some s' \<Longrightarrow> history s' = history s"
  by (auto simp: move_selection_def Let_def split: if_splits scan.splits)

lemma reachable_history_bounded: "reachable s \<Longrightarrow> length (history s) \<le> kMaxHistory"
proof (induction rule: reachable.induct)
  case reachable_initial
  show ?case by (simp add: initial_state_def)
next
  case (reachable_navigate s net host selector port expected_type)
  then show ?case by (simp add: history_navigate_to length_push_entry)
next
  case (reachable_back s net)
  then show ?case by (simp add: history_go_back)
next
  case (reachable_move s direction s')
  then show ?case by (simp add: history_move_selection)
qed

text \<open>
  Claim C3. The history never holds more than 50 entries. \<^verbatim>\<open>push_history\<close> always
  returns, with the pushed entry on top; below the bound it appends, at the bound it
  drops the oldest entry and appends, so 50 stay. From an empty history, any sequence of
  pushes leaves its last 50 entries, in order: the 51st push evicts the first-pushed
  entry. Every reachable state has at most 50 entries.
\<close>

theorem push_history_bounded_fifo:
  "length (history (push_history s)) \<le> kMaxHistory
   \<and> history (push_history s) \<noteq> []
   \<and> last (history (push_history s)) = page_entry (current_page s)
   \<and> (length (history s) < kMaxHistory \<longrightarrow>
        history (push_history s) = history s @ [page_entry (current_page s)])
   \<and> (length (history s) = kMaxHistory \<longrightarrow>
        history (push_history s) = tl (history s) @ [page_entry (current_page s)])
   \<and> foldl (\<lambda>h e. push_entry e h) [] es = drop (length es - kMaxHistory) es
   \<and> (reachable s \<longrightarrow> length (history s) \<le> kMaxHistory)"
  by (simp add: push_history_def length_push_entry last_push_entry push_entry_below
        push_entry_full pushes_drop reachable_history_bounded)

theorem push_history_bounded_fifo_witness:
  "length (history full_history_state) = 50
   \<and> history (push_history full_history_state) =
       map numbered_entry [1..<50] @ [page_entry (current_page full_history_state)]
   \<and> length (history (push_history full_history_state)) = 50
   \<and> foldl (\<lambda>h e. push_entry e h) [] (map numbered_entry [0..<51]) =
       map numbered_entry [1..<51]
   \<and> reachable initial_state \<and> length (history initial_state) \<le> 50"
proof -
  have len: "length (history full_history_state) = kMaxHistory"
    by (simp add: full_history_state_def kMaxHistory_def)
  have tl50: "tl (map numbered_entry [0..<50]) = map numbered_entry [1..<50]"
    by (simp add: map_tl [symmetric] del: upt_Suc)
  have hist: "history full_history_state = map numbered_entry [0..<50]"
    by (simp add: full_history_state_def)
  have drop51: "drop (length (map numbered_entry [0..<51]) - kMaxHistory) (map numbered_entry [0..<51])
      = map numbered_entry [1..<51]"
    by (simp add: kMaxHistory_def drop_map)
  have init: "length (history initial_state) \<le> 50"
    by (simp add: initial_state_def)
  from push_history_bounded_fifo [of full_history_state "map numbered_entry [0..<51]"] len
  have A: "history (push_history full_history_state) =
          tl (history full_history_state) @ [page_entry (current_page full_history_state)]"
    and B: "foldl (\<lambda>h e. push_entry e h) [] (map numbered_entry [0..<51]) =
          drop (length (map numbered_entry [0..<51]) - kMaxHistory) (map numbered_entry [0..<51])"
    by blast+
  have A': "history (push_history full_history_state) =
       map numbered_entry [1..<50] @ [page_entry (current_page full_history_state)]"
    using A by (simp only: hist tl50)
  have B': "foldl (\<lambda>h e. push_entry e h) [] (map numbered_entry [0..<51]) =
       map numbered_entry [1..<51]"
    using B by (simp only: drop51)
  have C: "length (history (push_history full_history_state)) = 50"
    by (simp only: A') simp
  have D: "length (history full_history_state) = 50"
    using len by (simp add: kMaxHistory_def)
  from A' B' C D init reachable_initial show ?thesis by blast
qed

section \<open>Navigation, step by step\<close>

text \<open>
  What \<^verbatim>\<open>navigate_to\<close> and \<^verbatim>\<open>go_back\<close> return, by the response of their fetch.
\<close>

lemma navigate_to_cases:
  "navigate_to net host selector port expected_type s =
     (let response = fst (fetch_gopher net host selector port s);
          target = (current_page s)\<lparr>page_host := host, page_selector := selector, page_port := port\<rparr>
      in if response = [] then
           s\<lparr>current_page := target, history := pushed_history s, is_loading := False,
             status_message := ''Failed to load page''\<rparr>
         else
           (let page = (if expected_type = CHR ''0'' \<or> expected_type = CHR ''h''
                        then parse_text_file response target
                        else parse_gopher_menu response target)
            in s\<lparr>current_page := page, history := pushed_history s,
                 selected_index := first_selectable (items page) 0, is_loading := False,
                 status_message := []\<rparr>))"
proof -
  define s1 where "s1 = (if page_host (current_page s) \<noteq> [] then push_history s else s)"
  define s3 where "s3 = (set_status ''Connecting...''
     (s1\<lparr>current_page := (current_page s1)
                 \<lparr>page_host := host, page_selector := selector, page_port := port\<rparr>\<rparr>))\<lparr>is_loading := True\<rparr>"
  have s1: "s1 = s\<lparr>history := pushed_history s\<rparr>"
    by (simp add: s1_def pushed_history_def push_history_def)
  obtain m where m: "snd (fetch_gopher net host selector port s3) = s3\<lparr>status_message := m\<rparr>"
    using fetch_gopher_frame by blast
  obtain r s4 where f: "fetch_gopher net host selector port s3 = (r, s4)"
    by (cases "fetch_gopher net host selector port s3")
  with m have s4: "s4 = s3\<lparr>status_message := m\<rparr>" by simp
  have r: "fst (fetch_gopher net host selector port s) = r"
    using f fetch_gopher_response [of net host selector port s s3] by simp
  show ?thesis
    unfolding navigate_to_def Let_def s1_def [symmetric] s3_def [symmetric] f r
    by (simp add: s4 s3_def s1 set_status_def)
qed

lemma go_back_cases:
  "go_back net s =
     (if history s = [] then (False, s)
      else
        (let entry = last (history s);
             response = fst (fetch_gopher net (c_str (entry_host entry))
                               (c_str (entry_selector entry)) (entry_port entry) s);
             target = (current_page s)\<lparr>page_host := entry_host entry,
                        page_selector := entry_selector entry, page_port := entry_port entry\<rparr>
         in if response = [] then
              (False, s\<lparr>current_page := target, history := butlast (history s),
                         is_loading := False, status_message := ''Failed to load page''\<rparr>)
            else
              (let page = parse_gopher_menu response target
               in (True, s\<lparr>current_page := page, history := butlast (history s),
                           selected_index := first_selectable (items page) 0,
                           is_loading := False, status_message := []\<rparr>))))"
proof (cases "history s = []")
  case True
  then show ?thesis by (simp add: go_back_def)
next
  case False
  define e where "e = last (history s)"
  define s3 where "s3 = (set_status ''Loading...''
     (s\<lparr>history := butlast (history s)\<rparr>
        \<lparr>current_page := (current_page (s\<lparr>history := butlast (history s)\<rparr>))
                 \<lparr>page_host := entry_host e, page_selector := entry_selector e,
                  page_port := entry_port e\<rparr>\<rparr>))\<lparr>is_loading := True\<rparr>"
  obtain m where m: "snd (fetch_gopher net (c_str (entry_host e)) (c_str (entry_selector e)) (entry_port e) s3) = s3\<lparr>status_message := m\<rparr>"
    using fetch_gopher_frame by blast
  obtain r s4 where f: "fetch_gopher net (c_str (entry_host e)) (c_str (entry_selector e)) (entry_port e) s3 = (r, s4)"
    by (cases "fetch_gopher net (c_str (entry_host e)) (c_str (entry_selector e)) (entry_port e) s3")
  with m have s4: "s4 = s3\<lparr>status_message := m\<rparr>" by simp
  have r: "fst (fetch_gopher net (c_str (entry_host e)) (c_str (entry_selector e)) (entry_port e) s) = r"
    using f fetch_gopher_response [of net _ _ _ s s3] by simp
  show ?thesis
    using False unfolding go_back_def Let_def e_def [symmetric] s3_def [symmetric] f r
    by (simp add: s4 s3_def set_status_def)
qed

lemma is_menu_parse_gopher_menu: "is_menu (parse_gopher_menu response page) = True"
  by (simp add: parse_gopher_menu_def split: prod.splits)

lemma parse_gopher_menu_frame:
  "page_host (parse_gopher_menu response page) = page_host page
   \<and> page_selector (parse_gopher_menu response page) = page_selector page
   \<and> page_port (parse_gopher_menu response page) = page_port page
   \<and> raw_text (parse_gopher_menu response page) = raw_text page"
  by (simp add: parse_gopher_menu_def split: prod.splits)

lemma parse_text_file_frame:
  "page_host (parse_text_file response page) = page_host page
   \<and> page_selector (parse_text_file response page) = page_selector page
   \<and> page_port (parse_text_file response page) = page_port page
   \<and> raw_text (parse_text_file response page) = response
   \<and> is_menu (parse_text_file response page) = False"
  by (simp add: parse_text_file_def split: prod.splits)

section \<open>Failed and successful loads\<close>

text \<open>
  Claim C1. When the fetch of \<^verbatim>\<open>navigate_to\<close> returns an empty response, the call sets
  the status message to the load failure and returns; the page's host, selector and port
  are the requested destination, and the items, the raw text, the menu flag and the
  selected index are what they were before the call.
\<close>

theorem navigate_to_failed_fetch:
  assumes "fst (fetch_gopher net host selector port s) = []"
  shows "status_message (navigate_to net host selector port expected_type s) = ''Failed to load page''
    \<and> is_loading (navigate_to net host selector port expected_type s) = False
    \<and> page_host (current_page (navigate_to net host selector port expected_type s)) = host
    \<and> page_selector (current_page (navigate_to net host selector port expected_type s)) = selector
    \<and> page_port (current_page (navigate_to net host selector port expected_type s)) = port
    \<and> items (current_page (navigate_to net host selector port expected_type s)) = items (current_page s)
    \<and> raw_text (current_page (navigate_to net host selector port expected_type s)) = raw_text (current_page s)
    \<and> is_menu (current_page (navigate_to net host selector port expected_type s)) = is_menu (current_page s)
    \<and> selected_index (navigate_to net host selector port expected_type s) = selected_index s"
  using assms by (simp add: navigate_to_cases)

theorem navigate_to_failed_fetch_witness:
  "fst (fetch_gopher dead_net ''example.org'' ''/x'' 7070 menu_state) = []
   \<and> status_message (navigate_to dead_net ''example.org'' ''/x'' 7070 (CHR ''1'') menu_state)
       = ''Failed to load page''
   \<and> page_host (current_page (navigate_to dead_net ''example.org'' ''/x'' 7070 (CHR ''1'') menu_state))
       = ''example.org''
   \<and> page_selector (current_page (navigate_to dead_net ''example.org'' ''/x'' 7070 (CHR ''1'') menu_state))
       = ''/x''
   \<and> page_port (current_page (navigate_to dead_net ''example.org'' ''/x'' 7070 (CHR ''1'') menu_state))
       = 7070
   \<and> items (current_page (navigate_to dead_net ''example.org'' ''/x'' 7070 (CHR ''1'') menu_state))
       = four_items
   \<and> selected_index (navigate_to dead_net ''example.org'' ''/x'' 7070 (CHR ''1'') menu_state) = 1"
proof -
  have empty: "fst (fetch_gopher dead_net ''example.org'' ''/x'' 7070 menu_state) = []"
    by (simp add: fetch_gopher_def connect_to_host_def dead_net_def)
  have "items (current_page menu_state) = four_items" and "selected_index menu_state = 1"
    by (simp_all add: menu_state_def)
  with navigate_to_failed_fetch [OF empty, of "CHR ''1''"] empty show ?thesis
    by simp
qed

text \<open>
  Claim C7. With an empty history \<^verbatim>\<open>go_back\<close> returns false and the state it was given.
  Otherwise it removes the entry pushed last and nothing else from the history, pushes
  nothing, fetches that entry's address from the network, and returns whether the
  response was non-empty; a non-empty response is parsed as a menu into the page,
  whatever kind the page on display was.
\<close>

theorem go_back_pops_and_refetches:
  "(history s = [] \<longrightarrow> go_back net s = (False, s))
   \<and> (history s \<noteq> [] \<longrightarrow>
        history (snd (go_back net s)) = butlast (history s)
        \<and> fst (go_back net s) =
            (fst (fetch_gopher net (c_str (entry_host (last (history s))))
                   (c_str (entry_selector (last (history s)))) (entry_port (last (history s))) s)
             \<noteq> [])
        \<and> (fst (go_back net s) \<longrightarrow>
             current_page (snd (go_back net s)) =
               parse_gopher_menu
                 (fst (fetch_gopher net (c_str (entry_host (last (history s))))
                        (c_str (entry_selector (last (history s))))
                        (entry_port (last (history s))) s))
                 ((current_page s)
                    \<lparr>page_host := entry_host (last (history s)),
                     page_selector := entry_selector (last (history s)),
                     page_port := entry_port (last (history s))\<rparr>)
             \<and> is_menu (current_page (snd (go_back net s)))))"
  by (simp add: go_back_cases Let_def is_menu_parse_gopher_menu)

text \<open>
  Claim C9. When the history is not empty and the fetch of \<^verbatim>\<open>go_back\<close> returns an empty
  response, the call returns false; the popped entry is gone from the history; the
  page's host, selector and port are the popped address; the items, the raw text, the
  menu flag and the selected index are those of the page on display before.
\<close>

theorem go_back_failed_fetch:
  assumes "history s \<noteq> []"
    and "fst (fetch_gopher net (c_str (entry_host (last (history s))))
               (c_str (entry_selector (last (history s)))) (entry_port (last (history s))) s) = []"
  shows "fst (go_back net s) = False
    \<and> history (snd (go_back net s)) = butlast (history s)
    \<and> page_host (current_page (snd (go_back net s))) = entry_host (last (history s))
    \<and> page_selector (current_page (snd (go_back net s))) = entry_selector (last (history s))
    \<and> page_port (current_page (snd (go_back net s))) = entry_port (last (history s))
    \<and> items (current_page (snd (go_back net s))) = items (current_page s)
    \<and> raw_text (current_page (snd (go_back net s))) = raw_text (current_page s)
    \<and> is_menu (current_page (snd (go_back net s))) = is_menu (current_page s)
    \<and> selected_index (snd (go_back net s)) = selected_index s
    \<and> status_message (snd (go_back net s)) = ''Failed to load page''"
  using assms by (simp add: go_back_cases Let_def)

theorem go_back_failed_fetch_witness:
  "history menu_state \<noteq> []
   \<and> fst (go_back dead_net menu_state) = False
   \<and> history (snd (go_back dead_net menu_state)) = []
   \<and> page_host (current_page (snd (go_back dead_net menu_state))) = ''gopher.floodgap.com''
   \<and> page_selector (current_page (snd (go_back dead_net menu_state))) = ''/''
   \<and> page_port (current_page (snd (go_back dead_net menu_state))) = 70
   \<and> items (current_page (snd (go_back dead_net menu_state))) = four_items
   \<and> selected_index (snd (go_back dead_net menu_state)) = 1"
proof -
  have nonempty: "history menu_state \<noteq> []"
    by (simp add: menu_state_def)
  have empty: "fst (fetch_gopher dead_net (c_str (entry_host (last (history menu_state))))
               (c_str (entry_selector (last (history menu_state))))
               (entry_port (last (history menu_state))) menu_state) = []"
    by (simp add: fetch_gopher_def connect_to_host_def dead_net_def)
  have "history menu_state = [numbered_entry 70]" "items (current_page menu_state) = four_items"
    "selected_index menu_state = 1"
    by (simp_all add: menu_state_def)
  with go_back_failed_fetch [OF nonempty empty] nonempty show ?thesis
    by (simp add: numbered_entry_def)
qed

section \<open>The example responses, evaluated\<close>

lemma recv_loop_menu_response: "recv_loop [menu_response] [] = (menu_response, False)"
  by (simp add: recv_loop.simps menu_response_def kRecvMax_def kMaxResponseSize_def c_str_def)

lemma fetch_menu_net: "fst (fetch_gopher menu_net host selector port s) = menu_response"
  by (simp add: fetch_gopher_def connect_to_host_def menu_net_def recv_loop_menu_response)

lemma menu_loop_menu_response:
  "menu_loop menu_response [] [] =
     (''.'', [\<lparr>item_type = CHR ''1'', item_display = ''A'', item_selector = ''foo'',
        item_host = ''ex.com'', item_port = Some 70\<rparr>])"
  by (simp add: menu_response_def strip_cr_def parse_gopher_line_def split_def trim_def
      atoi_def is_trim_char_def is_space_def is_digit_def in_int_range_def c_str_def
      kDefaultGopherPort_def)

lemma items_menu_response:
  "items (parse_gopher_menu menu_response page) =
     [\<lparr>item_type = CHR ''1'', item_display = ''A'', item_selector = ''foo'',
        item_host = ''ex.com'', item_port = Some 70\<rparr>]"
  by (simp add: parse_gopher_menu_def menu_loop_menu_response)

theorem go_back_pops_and_refetches_witness:
  "go_back dead_net initial_state = (False, initial_state)
   \<and> history text_state \<noteq> []
   \<and> is_menu (current_page text_state) = False
   \<and> fst (go_back menu_net text_state) = True
   \<and> history (snd (go_back menu_net text_state)) = []
   \<and> is_menu (current_page (snd (go_back menu_net text_state))) = True
   \<and> items (current_page (snd (go_back menu_net text_state))) =
       [\<lparr>item_type = CHR ''1'', item_display = ''A'', item_selector = ''foo'',
          item_host = ''ex.com'', item_port = Some 70\<rparr>]"
proof -
  have init: "history initial_state = []"
    by (simp add: initial_state_def)
  have hist: "history text_state = [numbered_entry 70]"
    and kind: "is_menu (current_page text_state) = False"
    by (simp_all add: text_state_def)
  have resp: "fst (fetch_gopher menu_net (c_str (entry_host (last (history text_state))))
                 (c_str (entry_selector (last (history text_state))))
                 (entry_port (last (history text_state))) text_state) = menu_response"
    by (rule fetch_menu_net)
  have nonempty: "menu_response \<noteq> []"
    by (simp add: menu_response_def)
  from go_back_pops_and_refetches [of initial_state dead_net] init
  have A: "go_back dead_net initial_state = (False, initial_state)"
    by blast
  from hist have G: "history text_state \<noteq> []" by simp
  from go_back_pops_and_refetches [of text_state menu_net, unfolded resp] G
  have B: "history (snd (go_back menu_net text_state)) = butlast (history text_state)"
    and C: "fst (go_back menu_net text_state) = (menu_response \<noteq> [])"
    and D: "fst (go_back menu_net text_state) \<longrightarrow>
             current_page (snd (go_back menu_net text_state)) =
               parse_gopher_menu menu_response
                 ((current_page text_state)
                    \<lparr>page_host := entry_host (last (history text_state)),
                     page_selector := entry_selector (last (history text_state)),
                     page_port := entry_port (last (history text_state))\<rparr>)
             \<and> is_menu (current_page (snd (go_back menu_net text_state)))"
    by blast+
  from C nonempty have C': "fst (go_back menu_net text_state) = True" by simp
  from D C' have D1: "current_page (snd (go_back menu_net text_state)) =
               parse_gopher_menu menu_response
                 ((current_page text_state)
                    \<lparr>page_host := entry_host (last (history text_state)),
                     page_selector := entry_selector (last (history text_state)),
                     page_port := entry_port (last (history text_state))\<rparr>)"
    and E: "is_menu (current_page (snd (go_back menu_net text_state))) = True"
    by blast+
  have F: "items (current_page (snd (go_back menu_net text_state))) =
       [\<lparr>item_type = CHR ''1'', item_display = ''A'', item_selector = ''foo'',
          item_host = ''ex.com'', item_port = Some 70\<rparr>]"
    by (simp only: D1 items_menu_response)
  from B hist have B': "history (snd (go_back menu_net text_state)) = []" by simp
  from A G kind C' B' E F show ?thesis by blast
qed

section \<open>The parsers and the lines of a response\<close>

lemma split_loop_result: "split_loop cs d token result = result @ split_loop cs d token []"
proof (induction cs arbitrary: token result)
  case Nil
  show ?case by simp
next
  case (Cons c cs)
  show ?case
  proof (cases "c = d")
    case True
    have "split_loop (c # cs) d token result = (result @ [token]) @ split_loop cs d [] []"
      using True Cons [of "[]" "result @ [token]"] by simp
    also have "\<dots> = result @ ([] @ [token]) @ split_loop cs d [] []" by simp
    also have "\<dots> = result @ split_loop (c # cs) d token []"
      using True Cons [of "[]" "[] @ [token]"] by simp
    finally show ?thesis .
  next
    case False
    then show ?thesis using Cons [of "token @ [c]" result] by simp
  qed
qed

lemma split_loop_not_Nil: "split_loop cs d token result \<noteq> []"
  by (induction cs arbitrary: token result) auto

lemma split_loop_delim:
  "split_loop (d # cs) d token [] = token # split_loop cs d [] []"
  using split_loop_result [of cs d "[]" "[token]"] by simp

lemma split_loop_other:
  "c \<noteq> d \<Longrightarrow> split_loop (c # cs) d token [] = split_loop cs d (token @ [c]) []"
  by simp

text \<open>
  The loops, started in the middle of a response with a pending line: either the end
  marker is among the lines still to come, and the loop stops there, or the loop runs to
  the end and leaves the unterminated rest pending.
\<close>

lemma menu_loop_lines:
  "menu_loop cs line its =
     (if ''.'' \<in> set (map strip_cr (butlast (split_loop cs LF line [])))
      then (''.'', its @ map parse_gopher_line (filter (\<lambda>l. l \<noteq> [])
              (takeWhile (\<lambda>l. l \<noteq> ''.'') (map strip_cr (butlast (split_loop cs LF line []))))))
      else (last (split_loop cs LF line []),
            its @ map parse_gopher_line (filter (\<lambda>l. l \<noteq> [])
              (map strip_cr (butlast (split_loop cs LF line []))))))"
proof (induction cs arbitrary: line its)
  case Nil
  show ?case by simp
next
  case (Cons c cs)
  show ?case
  proof (cases "c = LF")
    case False
    then show ?thesis using Cons [of "line @ [c]" its] by simp
  next
    case True
    have L: "split_loop (LF # cs) LF line [] = line # split_loop cs LF [] []"
      by (rule split_loop_delim)
    have B: "butlast (split_loop (LF # cs) LF line []) = line # butlast (split_loop cs LF [] [])"
      by (simp only: L) (simp add: split_loop_not_Nil)
    have La: "last (split_loop (LF # cs) LF line []) = last (split_loop cs LF [] [])"
      by (simp only: L) (simp add: split_loop_not_Nil)
    show ?thesis
    proof (cases "strip_cr line = ''.''")
      case dot: True
      with True show ?thesis by (simp add: B del: split_loop.simps)
    next
      case nodot: False
      show ?thesis
      proof (cases "strip_cr line = []")
        case True
        with \<open>c = LF\<close> nodot show ?thesis
          using Cons [of "[]" its] by (simp add: B La del: split_loop.simps)
      next
        case False
        with \<open>c = LF\<close> nodot show ?thesis
          using Cons [of "[]" "its @ [parse_gopher_line (strip_cr line)]"] by (simp add: B La del: split_loop.simps)
      qed
    qed
  qed
qed

lemma text_loop_lines:
  "text_loop cs line its =
     (if ''.'' \<in> set (map strip_cr (butlast (split_loop cs LF line [])))
      then (''.'', its @ map info_item
              (takeWhile (\<lambda>l. l \<noteq> ''.'') (map strip_cr (butlast (split_loop cs LF line [])))))
      else (last (split_loop cs LF line []),
            its @ map info_item (map strip_cr (butlast (split_loop cs LF line [])))))"
proof (induction cs arbitrary: line its)
  case Nil
  show ?case by simp
next
  case (Cons c cs)
  show ?case
  proof (cases "c = LF")
    case False
    then show ?thesis using Cons [of "line @ [c]" its] by simp
  next
    case True
    have L: "split_loop (LF # cs) LF line [] = line # split_loop cs LF [] []"
      by (rule split_loop_delim)
    have B: "butlast (split_loop (LF # cs) LF line []) = line # butlast (split_loop cs LF [] [])"
      by (simp only: L) (simp add: split_loop_not_Nil)
    have La: "last (split_loop (LF # cs) LF line []) = last (split_loop cs LF [] [])"
      by (simp only: L) (simp add: split_loop_not_Nil)
    show ?thesis
    proof (cases "strip_cr line = ''.''")
      case dot: True
      with True show ?thesis by (simp add: B del: split_loop.simps)
    next
      case nodot: False
      with \<open>c = LF\<close> show ?thesis
        using Cons [of "[]" "its @ [info_item (strip_cr line)]"] by (simp add: B La del: split_loop.simps)
    qed
  qed
qed

lemma takeWhile_all: "x \<notin> set xs \<Longrightarrow> takeWhile (\<lambda>l. l \<noteq> x) xs = xs"
  by (induction xs) auto

lemma items_parse_gopher_menu:
  "items (parse_gopher_menu response page) =
     map parse_gopher_line (filter (\<lambda>l. l \<noteq> []) (flushed_lines response))"
  by (simp add: parse_gopher_menu_def menu_loop_lines flushed_lines_def terminated_lines_def
      pending_line_def split_def takeWhile_all)

lemma items_parse_text_file:
  "items (parse_text_file response page) = map info_item (flushed_lines response)"
  by (simp add: parse_text_file_def text_loop_lines flushed_lines_def terminated_lines_def
      pending_line_def split_def takeWhile_all)

section \<open>The end marker\<close>








section \<open>The unterminated last line\<close>

text \<open>
  Claim C6, evaluated. A last line without a line feed keeps its carriage return, where
  the same line ended by a line feed loses it: the display text differs, a lone carriage
  return becomes a menu item, and the marker followed by a carriage return is listed
  instead of ending the listing.
\<close>

theorem last_line_keeps_carriage_return:
  "items (parse_text_file (''abc'' @ [CR]) page) = [info_item (''abc'' @ [CR])]
   \<and> items (parse_text_file (''abc'' @ [CR, LF]) page) = [info_item ''abc'']
   \<and> map item_display (items (parse_gopher_menu (''1A'' @ [CR]) page)) = [''A'' @ [CR]]
   \<and> map item_display (items (parse_gopher_menu (''1A'' @ [CR, LF]) page)) = [''A'']
   \<and> map item_type (items (parse_gopher_menu [CR] page)) = [CR]
   \<and> items (parse_gopher_menu [CR, LF] page) = []
   \<and> items (parse_text_file (''.'' @ [CR]) page) = [info_item (''.'' @ [CR])]
   \<and> items (parse_text_file (''.'' @ [CR, LF]) page) = []"
  by (simp add: parse_text_file_def parse_gopher_menu_def strip_cr_def parse_gopher_line_def
      split_def)

text \<open>
  Where the unterminated rest is empty or does not end in a carriage return, the lines
  the code goes through are the specification's lines, and both parsers list what the
  specification says: the menu parser the lines that are not blank, the text parser
  every line as it stands.
\<close>

lemma flushed_lines_spec_lines:
  assumes "pending_line response = [] \<or> last (pending_line response) \<noteq> CR"
  shows "flushed_lines response = spec_lines response"
proof -
  from assms have S: "strip_cr (pending_line response) = pending_line response"
    by (auto simp: strip_cr_def)
  show ?thesis
  proof (cases "''.'' \<in> set (terminated_lines response)")
    case True
    then show ?thesis
      by (simp add: flushed_lines_def spec_lines_def)
  next
    case False
    then have "takeWhile (\<lambda>l. l \<noteq> ''.'') (terminated_lines response) = terminated_lines response"
      by (rule takeWhile_all)
    moreover from False have "takeWhile (\<lambda>l. l \<noteq> ''.'') (terminated_lines response @ rest) =
        terminated_lines response @ takeWhile (\<lambda>l. l \<noteq> ''.'') rest" for rest
      by (intro takeWhile_append2) auto
    ultimately have F: "flushed_lines response =
        terminated_lines response @
        (if pending_line response = [] \<or> pending_line response = ''.'' then []
         else [pending_line response])"
      and G: "spec_lines response =
        terminated_lines response @
        takeWhile (\<lambda>l. l \<noteq> ''.'')
          (if pending_line response = [] then [] else [pending_line response])"
      using False by (simp_all only: flushed_lines_def spec_lines_def S if_False simp_thms)
    show ?thesis
      unfolding F G by (cases "pending_line response = ''.''") auto
  qed
qed

lemma parsers_follow_spec_lines:
  assumes "pending_line response = [] \<or> last (pending_line response) \<noteq> CR"
  shows "items (parse_gopher_menu response page) =
           map parse_gopher_line (filter (\<lambda>l. l \<noteq> []) (spec_lines response))"
    and "items (parse_text_file response page) = map info_item (spec_lines response)"
  using flushed_lines_spec_lines [OF assms]
  by (simp_all add: items_parse_gopher_menu items_parse_text_file)

text \<open>
  Claim C4, evaluated. On a response whose last line is a lone carriage return without
  a line feed, a blank line by the specification's lines, \<^verbatim>\<open>parse_gopher_menu\<close> lists an
  item for it (of type carriage return), where the claim has no item for a blank line;
  \<^verbatim>\<open>parse_text_file\<close> lists it with the carriage return as its text, where the line's
  text is empty. The same lines ended by a line feed are listed as the claim says.
\<close>

theorem blank_last_line_is_listed:
  "spec_lines (''1A'' @ [CR, LF, CR]) = [''1A'', []]
   \<and> map item_type (items (parse_gopher_menu (''1A'' @ [CR, LF, CR]) page)) = [CHR ''1'', CR]
   \<and> length (filter (\<lambda>l. l \<noteq> []) (spec_lines (''1A'' @ [CR, LF, CR]))) = 1
   \<and> items (parse_gopher_menu (''1A'' @ [CR, LF, CR]) page) \<noteq>
       map parse_gopher_line (filter (\<lambda>l. l \<noteq> []) (spec_lines (''1A'' @ [CR, LF, CR])))
   \<and> map item_display (items (parse_text_file (''1A'' @ [CR, LF, CR]) page)) = [''1A'', [CR]]
   \<and> items (parse_text_file (''1A'' @ [CR, LF, CR]) page) \<noteq>
       map info_item (spec_lines (''1A'' @ [CR, LF, CR]))
   \<and> items (parse_gopher_menu (''1A'' @ [CR, LF, CR, LF]) page) =
       map parse_gopher_line (filter (\<lambda>l. l \<noteq> []) (spec_lines (''1A'' @ [CR, LF, CR, LF])))
   \<and> items (parse_text_file (''1A'' @ [CR, LF, CR, LF]) page) =
       map info_item (spec_lines (''1A'' @ [CR, LF, CR, LF]))"
  by (simp add: spec_lines_def terminated_lines_def pending_line_def parse_text_file_def
      parse_gopher_menu_def strip_cr_def parse_gopher_line_def split_def info_item_def)

section \<open>The receive loop and the safety limit\<close>

lemma length_c_str_le: "length (c_str buffer) \<le> length buffer"
  by (simp add: c_str_def length_takeWhile_le)

lemma c_str_id: "NUL \<notin> set buffer \<Longrightarrow> c_str buffer = buffer"
  by (simp add: c_str_def takeWhile_eq_all_conv) metis

lemma recv_loop_Cons:
  "recv_loop (seg # rest) response =
     (if length (take kRecvMax seg) = 0 then (response, False)
      else if kMaxResponseSize < length (response @ c_str (take kRecvMax seg))
        then (response @ c_str (take kRecvMax seg), True)
        else recv_loop (if kRecvMax < length seg then drop kRecvMax seg # rest else rest)
               (response @ c_str (take kRecvMax seg)))"
  by (subst recv_loop.simps) (simp only: Let_def)

lemma recv_loop_bound:
  "length response \<le> kMaxResponseSize \<Longrightarrow>
   length (fst (recv_loop segs response)) \<le> kMaxResponseSize + kRecvMax"
proof (induction segs response rule: recv_loop.induct)
  case (1 response)
  then show ?case by (simp add: recv_loop.simps)
next
  case (2 seg rest response)
  define buffer where "buffer = take kRecvMax seg"
  define pending where
    "pending = (if kRecvMax < length seg then drop kRecvMax seg # rest else rest)"
  have unfold: "recv_loop (seg # rest) response =
     (if length buffer = 0 then (response, False)
      else if kMaxResponseSize < length (response @ c_str buffer)
        then (response @ c_str buffer, True)
        else recv_loop pending (response @ c_str buffer))"
    unfolding buffer_def pending_def by (rule recv_loop_Cons)
  have len: "length (response @ c_str buffer) \<le> kMaxResponseSize + kRecvMax"
    using "2.prems" length_c_str_le [of buffer] by (simp add: buffer_def)
  show ?case
  proof (cases "length buffer = 0")
    case True
    then show ?thesis
      using "2.prems" by (simp add: unfold)
  next
    case nonempty: False
    show ?thesis
    proof (cases "kMaxResponseSize < length (response @ c_str buffer)")
      case True
      with nonempty len show ?thesis
        by (simp add: unfold)
    next
      case False
      then have "length (fst (recv_loop pending (response @ c_str buffer)))
          \<le> kMaxResponseSize + kRecvMax"
        using "2.IH" [OF buffer_def pending_def _ refl] nonempty by simp
      with nonempty False show ?thesis
        by (simp add: unfold)
    qed
  qed
qed

lemma recv_loop_flag:
  "length response \<le> kMaxResponseSize \<Longrightarrow>
   snd (recv_loop segs response) = (kMaxResponseSize < length (fst (recv_loop segs response)))"
proof (induction segs response rule: recv_loop.induct)
  case (1 response)
  then show ?case by (simp add: recv_loop.simps)
next
  case (2 seg rest response)
  define buffer where "buffer = take kRecvMax seg"
  define pending where
    "pending = (if kRecvMax < length seg then drop kRecvMax seg # rest else rest)"
  have unfold: "recv_loop (seg # rest) response =
     (if length buffer = 0 then (response, False)
      else if kMaxResponseSize < length (response @ c_str buffer)
        then (response @ c_str buffer, True)
        else recv_loop pending (response @ c_str buffer))"
    unfolding buffer_def pending_def by (rule recv_loop_Cons)
  show ?case
  proof (cases "length buffer = 0")
    case True
    then show ?thesis
      using "2.prems" by (simp add: unfold)
  next
    case nonempty: False
    show ?thesis
    proof (cases "kMaxResponseSize < length (response @ c_str buffer)")
      case True
      with nonempty show ?thesis
        by (simp add: unfold)
    next
      case False
      then have "snd (recv_loop pending (response @ c_str buffer)) =
          (kMaxResponseSize < length (fst (recv_loop pending (response @ c_str buffer))))"
        using "2.IH" [OF buffer_def pending_def _ refl] nonempty by simp
      with nonempty False show ?thesis
        by (simp add: unfold)
    qed
  qed
qed

lemma recv_loop_prefix:
  "[] \<notin> set segs \<Longrightarrow> NUL \<notin> set (concat segs) \<Longrightarrow> length response \<le> kMaxResponseSize \<Longrightarrow>
   \<exists>n \<le> length (concat segs).
     fst (recv_loop segs response) = response @ take n (concat segs)
     \<and> (if kMaxResponseSize < length response + length (concat segs)
         then kMaxResponseSize < length response + n
         else n = length (concat segs))"
proof (induction segs response rule: recv_loop.induct)
  case (1 response)
  then show ?case by (simp add: recv_loop.simps)
next
  case (2 seg rest response)
  define buffer where "buffer = take kRecvMax seg"
  define pending where
    "pending = (if kRecvMax < length seg then drop kRecvMax seg # rest else rest)"
  have unfold: "recv_loop (seg # rest) response =
     (if length buffer = 0 then (response, False)
      else if kMaxResponseSize < length (response @ c_str buffer)
        then (response @ c_str buffer, True)
        else recv_loop pending (response @ c_str buffer))"
    unfolding buffer_def pending_def by (rule recv_loop_Cons)
  define k where "k = length buffer"
  from "2.prems" have seg: "seg \<noteq> []" and nul: "NUL \<notin> set seg" by auto
  then have nonempty: "length buffer \<noteq> 0"
    by (simp add: buffer_def kRecvMax_def)
  have "set buffer \<subseteq> set seg"
    by (simp add: buffer_def set_take_subset)
  with nul have cstr: "c_str buffer = buffer"
    by (intro c_str_id) blast
  have buf: "buffer = take k (concat (seg # rest))"
    by (simp add: buffer_def k_def min_def)
  have pend: "concat pending = drop k (concat (seg # rest))"
    by (simp add: pending_def buffer_def k_def min_def)
  have kle: "k \<le> length (concat (seg # rest))"
    by (simp add: buffer_def k_def)
  show ?case
  proof (cases "kMaxResponseSize < length (response @ buffer)")
    case True
    then have "fst (recv_loop (seg # rest) response) = response @ buffer"
      using nonempty cstr by (simp add: unfold)
    then have "fst (recv_loop (seg # rest) response) = response @ take k (concat (seg # rest))"
      using buf by simp
    moreover have "kMaxResponseSize < length response + k"
      using True by (simp add: k_def)
    ultimately show ?thesis using kle by (intro exI [of _ k]) auto
  next
    case False
    have p1: "[] \<notin> set pending"
      using "2.prems"(1) by (auto simp: pending_def)
    have p2: "NUL \<notin> set (concat pending)"
      using "2.prems"(2) set_drop_subset [of k "concat (seg # rest)"]
      unfolding pend by blast
    from False have p3: "length (response @ c_str buffer) \<le> kMaxResponseSize"
      by (simp add: cstr)
    from "2.IH" [OF buffer_def pending_def nonempty refl _ p1 p2 p3] False
    obtain n where n: "n \<le> length (concat pending)"
      "fst (recv_loop pending (response @ c_str buffer)) =
         (response @ c_str buffer) @ take n (concat pending)"
      "if kMaxResponseSize < length (response @ c_str buffer) + length (concat pending)
       then kMaxResponseSize < length (response @ c_str buffer) + n
       else n = length (concat pending)"
      by (auto simp: cstr)
    have step: "recv_loop (seg # rest) response = recv_loop pending (response @ c_str buffer)"
      using nonempty False by (simp add: unfold cstr)
    have "take (k + n) (concat (seg # rest)) = buffer @ take n (concat pending)"
      by (simp only: take_add pend buf [symmetric])
    with n(2) have A: "fst (recv_loop (seg # rest) response) =
        response @ take (k + n) (concat (seg # rest))"
      by (simp add: step cstr)
    define t where "t = length (concat (seg # rest))"
    have lp: "length (concat pending) = t - k"
      unfolding pend t_def by (rule length_drop)
    have kt: "k \<le> t"
      using kle by (simp only: t_def)
    have lr: "length (response @ c_str buffer) = length response + k"
      by (simp add: cstr k_def)
    have B: "k + n \<le> length (concat (seg # rest))"
      using n(1) kt unfolding lp t_def [symmetric] by simp
    have "if kMaxResponseSize < length response + t
         then kMaxResponseSize < length response + (k + n)
         else k + n = t"
      using n(3) kt unfolding lp lr by (simp split: if_splits)
    then have C: "if kMaxResponseSize < length response + length (concat (seg # rest))
         then kMaxResponseSize < length response + (k + n)
         else k + n = length (concat (seg # rest))"
      by (simp only: t_def)
    from A B C show ?thesis by (intro exI [of _ "k + n"]) blast
  qed
qed

lemma recv_loop_replicate:
  assumes "seg \<noteq> []" and "NUL \<notin> set seg" and "length seg \<le> kRecvMax"
    and "length response + n * length seg \<le> kMaxResponseSize"
  shows "recv_loop (replicate n seg @ rest) response =
         recv_loop rest (response @ concat (replicate n seg))"
  using assms(4)
proof (induction n arbitrary: response)
  case 0
  show ?case by simp
next
  case (Suc n)
  from Suc.prems have fits: "\<not> kMaxResponseSize < length (response @ seg)"
    and next_fits: "length (response @ seg) + n * length seg \<le> kMaxResponseSize"
    by simp_all
  have "recv_loop (replicate (Suc n) seg @ rest) response =
        recv_loop (seg # (replicate n seg @ rest)) response"
    by simp
  also have "\<dots> = recv_loop (replicate n seg @ rest) (response @ seg)"
    using assms(1-3) fits by (simp add: recv_loop_Cons c_str_id)
  also have "\<dots> = recv_loop rest ((response @ seg) @ concat (replicate n seg))"
    using next_fits by (rule Suc.IH)
  finally show ?case by simp
qed

lemma length_concat_replicate: "length (concat (replicate n xs)) = n * length xs"
  by (induction n) simp_all

lemma flood_segment_facts:
  "flood_segment \<noteq> []" "NUL \<notin> set flood_segment" "length flood_segment = 4095"
  by (simp_all add: flood_segment_def)

lemma recv_loop_flood:
  "recv_loop (replicate 200 flood_segment) [] = (concat (replicate 129 flood_segment), True)"
proof -
  have split: "replicate 200 flood_segment =
      replicate 128 flood_segment @ (flood_segment # replicate 71 flood_segment)"
    unfolding replicate_app_Cons_same replicate_add [symmetric] replicate_Suc [symmetric]
    by simp
  have "recv_loop (replicate 200 flood_segment) [] =
      recv_loop (flood_segment # replicate 71 flood_segment)
        ([] @ concat (replicate 128 flood_segment))"
    unfolding split
    by (rule recv_loop_replicate)
       (simp_all add: flood_segment_facts kRecvMax_def kMaxResponseSize_def)
  also have "\<dots> = (concat (replicate 128 flood_segment) @ flood_segment, True)"
    by (simp add: recv_loop_Cons c_str_id flood_segment_facts length_concat_replicate
        kRecvMax_def kMaxResponseSize_def)
  also have "concat (replicate 128 flood_segment) @ flood_segment =
      concat (replicate 129 flood_segment)"
  proof -
    have "replicate 129 flood_segment = replicate 128 flood_segment @ [flood_segment]"
      unfolding replicate_append_same replicate_Suc [symmetric] by simp
    then show ?thesis by simp
  qed
  finally show ?thesis .
qed

lemma fetch_gopher_connected:
  assumes "net host port = Connects sockfd" and "sockfd (selector @ [CR, LF]) = Replies segs"
  shows "fetch_gopher net host selector port s =
     (fst (recv_loop segs []),
      if snd (recv_loop segs []) then set_status ''Response too large'' s else s)"
  using assms by (simp add: fetch_gopher_def connect_to_host_def split: prod.splits)

lemma fetch_gopher_bound:
  "length (fst (fetch_gopher net host selector port s)) \<le> kMaxResponseSize + kRecvMax"
proof (cases "net host port")
  case (Connects sockfd)
  show ?thesis
  proof (cases "sockfd (selector @ [CR, LF])")
    case SendFails
    with Connects show ?thesis by (simp add: fetch_gopher_def connect_to_host_def)
  next
    case (Replies segs)
    from recv_loop_bound [of "[]" segs] show ?thesis
      using fetch_gopher_connected [of net host port sockfd selector segs s] Connects Replies
      by simp
  qed
qed (simp_all add: fetch_gopher_def connect_to_host_def)

text \<open>
  Claim C2, as the code has it. No fetch returns more than the limit plus one receive
  buffer. When the peer's stream is longer than 512 KiB (delivered in non-empty
  segments, free of NUL bytes, which the C string append would drop), the fetch stops
  at the first receive that takes the response over 512 KiB and returns all it has
  collected: a prefix of the stream of more than 512 KiB and at most 512 KiB plus 4095
  bytes. It returns normally, with the status message set to the size warning.
\<close>

theorem fetch_gopher_safety_limit:
  "length (fst (fetch_gopher net host selector port s)) \<le> kMaxResponseSize + kRecvMax
   \<and> (net host port = Connects sockfd \<and> sockfd (selector @ [CR, LF]) = Replies segs
        \<and> [] \<notin> set segs \<and> NUL \<notin> set (concat segs)
        \<and> kMaxResponseSize < length (concat segs) \<longrightarrow>
       (\<exists>n. fst (fetch_gopher net host selector port s) = take n (concat segs)
            \<and> kMaxResponseSize < n \<and> n \<le> kMaxResponseSize + kRecvMax
            \<and> n \<le> length (concat segs))
       \<and> snd (fetch_gopher net host selector port s) = set_status ''Response too large'' s)"
proof (intro conjI impI)
  show "length (fst (fetch_gopher net host selector port s)) \<le> kMaxResponseSize + kRecvMax"
    by (rule fetch_gopher_bound)
next
  assume H: "net host port = Connects sockfd \<and> sockfd (selector @ [CR, LF]) = Replies segs
        \<and> [] \<notin> set segs \<and> NUL \<notin> set (concat segs)
        \<and> kMaxResponseSize < length (concat segs)"
  then have F: "fetch_gopher net host selector port s =
     (fst (recv_loop segs []),
      if snd (recv_loop segs []) then set_status ''Response too large'' s else s)"
    using fetch_gopher_connected [of net host port sockfd selector segs s] by blast
  from H recv_loop_prefix [of segs "[]"]
  obtain n where n: "n \<le> length (concat segs)"
    "fst (recv_loop segs []) = take n (concat segs)" "kMaxResponseSize < n"
    by auto
  then have len: "length (fst (recv_loop segs [])) = n" by simp
  from recv_loop_bound [of "[]" segs] len have "n \<le> kMaxResponseSize + kRecvMax" by simp
  with n F
  show "\<exists>n. fst (fetch_gopher net host selector port s) = take n (concat segs)
            \<and> kMaxResponseSize < n \<and> n \<le> kMaxResponseSize + kRecvMax
            \<and> n \<le> length (concat segs)"
    by auto
  from recv_loop_flag [of "[]" segs] len n(3) have "snd (recv_loop segs [])" by simp
  with F show "snd (fetch_gopher net host selector port s) = set_status ''Response too large'' s"
    by simp
qed

lemma fetch_gopher_flood:
  "fetch_gopher flood_net host selector port s =
     (concat (replicate 129 flood_segment), set_status ''Response too large'' s)"
  by (simp add: fetch_gopher_connected [of flood_net host port
        "\<lambda>request. Replies (replicate 200 flood_segment)" selector "replicate 200 flood_segment"]
      flood_net_def recv_loop_flood)

theorem fetch_gopher_safety_limit_witness:
  "[] \<notin> set (replicate 200 flood_segment)
   \<and> NUL \<notin> set (concat (replicate 200 flood_segment))
   \<and> kMaxResponseSize < length (concat (replicate 200 flood_segment))
   \<and> (\<exists>n. fst (fetch_gopher flood_net ''example.org'' ''/'' 70 initial_state) =
             take n (concat (replicate 200 flood_segment))
          \<and> kMaxResponseSize < n \<and> n \<le> kMaxResponseSize + kRecvMax)
   \<and> snd (fetch_gopher flood_net ''example.org'' ''/'' 70 initial_state) =
       set_status ''Response too large'' initial_state"
proof -
  have A: "[] \<notin> set (replicate 200 flood_segment)"
    using flood_segment_facts(1) by auto
  have B: "NUL \<notin> set (concat (replicate 200 flood_segment))"
    by (simp add: flood_segment_facts)
  have C: "kMaxResponseSize < length (concat (replicate 200 flood_segment))"
    by (simp add: length_concat_replicate flood_segment_facts kMaxResponseSize_def)
  have D: "flood_net ''example.org'' 70 = Connects (\<lambda>request. Replies (replicate 200 flood_segment))"
    by (simp add: flood_net_def)
  from fetch_gopher_safety_limit [of flood_net "''example.org''" "''/''" 70 initial_state
      "\<lambda>request. Replies (replicate 200 flood_segment)" "replicate 200 flood_segment"] A B C D
  have "(\<exists>n. fst (fetch_gopher flood_net ''example.org'' ''/'' 70 initial_state) =
             take n (concat (replicate 200 flood_segment))
          \<and> kMaxResponseSize < n \<and> n \<le> kMaxResponseSize + kRecvMax
          \<and> n \<le> length (concat (replicate 200 flood_segment)))"
    and E: "snd (fetch_gopher flood_net ''example.org'' ''/'' 70 initial_state) =
       set_status ''Response too large'' initial_state"
    by blast+
  then have "\<exists>n. fst (fetch_gopher flood_net ''example.org'' ''/'' 70 initial_state) =
             take n (concat (replicate 200 flood_segment))
          \<and> kMaxResponseSize < n \<and> n \<le> kMaxResponseSize + kRecvMax"
    by blast
  with A B C E show ?thesis by blast
qed

text \<open>
  The claim as the specification words it fails: on a stream of 200 segments of 4095
  bytes the fetch returns 129 of them, 528255 bytes, not 524288.
\<close>

theorem fetch_gopher_exact_cap_counterexample:
  "kMaxResponseSize < length (concat (replicate 200 flood_segment))
   \<and> length (fst (fetch_gopher flood_net ''example.org'' ''/'' 70 initial_state)) = 528255
   \<and> length (fst (fetch_gopher flood_net ''example.org'' ''/'' 70 initial_state))
       \<noteq> kMaxResponseSize"
  by (simp add: fetch_gopher_flood length_concat_replicate flood_segment_facts
      kMaxResponseSize_def)

section \<open>The scans of the selection\<close>

lemma find_append:
  "find P (xs @ ys) = (case find P xs of None \<Rightarrow> find P ys | Some x \<Rightarrow> Some x)"
  by (induction xs) simp_all

lemma scan_direction_up:
  "0 \<le> i \<Longrightarrow>
   scan_direction its 1 i =
     (case find (\<lambda>j. is_selectable (its ! nat j)) [i .. int (length its) - 1] of
        Some j \<Rightarrow> Found j | None \<Rightarrow> Exhausted)"
proof (induction its "1::int" i rule: scan_direction.induct)
  case (1 its i)
  show ?case
  proof (cases "i < int (length its)")
    case False
    then show ?thesis by (subst scan_direction.simps) simp
  next
    case True
    then have U: "[i .. int (length its) - 1] = i # [i + 1 .. int (length its) - 1]"
      by (simp add: upto_rec1)
    show ?thesis
    proof (cases "is_selectable (its ! nat i)")
      case sel: True
      with True "1.prems" show ?thesis
        by (subst scan_direction.simps) (simp add: U)
    next
      case nosel: False
      with True "1.prems" "1.hyps" show ?thesis
        by (subst scan_direction.simps) (simp add: U)
    qed
  qed
qed

lemma scan_direction_down:
  "i < int (length its) \<Longrightarrow>
   scan_direction its (- 1) i =
     (case find (\<lambda>j. is_selectable (its ! nat j)) (rev [0 .. i]) of
        Some j \<Rightarrow> Found j | None \<Rightarrow> Exhausted)"
proof (induction its "- 1::int" i rule: scan_direction.induct)
  case (1 its i)
  show ?case
  proof (cases "0 \<le> i")
    case False
    then show ?thesis by (subst scan_direction.simps) simp
  next
    case True
    then have U: "[0 .. i] = [0 .. i - 1] @ [i]"
      by (simp add: upto_rec2)
    show ?thesis
    proof (cases "is_selectable (its ! nat i)")
      case sel: True
      with True "1.prems" show ?thesis
        by (subst scan_direction.simps) (simp add: U)
    next
      case nosel: False
      with True "1.prems" "1.hyps" show ?thesis
        by (subst scan_direction.simps) (simp add: U)
    qed
  qed
qed

lemma wrap_from_start_find:
  "0 \<le> i \<Longrightarrow> selected \<le> int (length its) \<Longrightarrow>
   wrap_from_start its selected i =
     (case find (\<lambda>j. is_selectable (its ! nat j)) [i .. selected - 1] of
        Some j \<Rightarrow> Found j | None \<Rightarrow> Exhausted)"
proof (induction its selected i rule: wrap_from_start.induct)
  case (1 its selected i)
  show ?case
  proof (cases "i < selected")
    case False
    then show ?thesis by (subst wrap_from_start.simps) simp
  next
    case True
    then have U: "[i .. selected - 1] = i # [i + 1 .. selected - 1]"
      by (simp add: upto_rec1)
    show ?thesis
    proof (cases "is_selectable (its ! nat i)")
      case sel: True
      with True "1.prems" show ?thesis
        by (subst wrap_from_start.simps) (simp add: U)
    next
      case nosel: False
      with True "1.prems" "1.IH" show ?thesis
        by (subst wrap_from_start.simps) (simp add: U)
    qed
  qed
qed

lemma wrap_from_end_find:
  "i < int (length its) \<Longrightarrow> - 1 \<le> selected \<Longrightarrow>
   wrap_from_end its selected i =
     (case find (\<lambda>j. is_selectable (its ! nat j)) (rev [selected + 1 .. i]) of
        Some j \<Rightarrow> Found j | None \<Rightarrow> Exhausted)"
proof (induction its selected i rule: wrap_from_end.induct)
  case (1 its selected i)
  show ?case
  proof (cases "selected < i")
    case False
    then show ?thesis by (subst wrap_from_end.simps) simp
  next
    case True
    then have U: "[selected + 1 .. i] = [selected + 1 .. i - 1] @ [i]"
      by (simp add: upto_rec2)
    show ?thesis
    proof (cases "is_selectable (its ! nat i)")
      case sel: True
      with True "1.prems" show ?thesis
        by (subst wrap_from_end.simps) (simp add: U)
    next
      case nosel: False
      with True "1.prems" "1.IH" show ?thesis
        by (subst wrap_from_end.simps) (simp add: U)
    qed
  qed
qed

lemma find_none_selectable:
  assumes "\<forall>it \<in> set its. \<not> is_selectable it"
    and "\<forall>i \<in> set xs. 0 \<le> i \<and> i < int (length its)"
  shows "find (\<lambda>i. is_selectable (its ! nat i)) xs = None"
  using assms by (auto simp: find_None_iff)

text \<open>
  Claim C8. In a state whose selection is \<open>-1\<close> or an index of the page's items, a step
  of \<open>+1\<close> or \<open>-1\<close> returns, and selects the nearest selectable item in that direction;
  when there is none up to the end of the list it selects the first selectable item
  met from the other end before the selection; when there is none at all, or the page has
  no items, the state is unchanged. Nothing but the selection changes.
\<close>

theorem move_selection_nearest:
  assumes "direction = 1 \<or> direction = - 1"
    and "- 1 \<le> selected_index s"
    and "selected_index s < int (length (items (current_page s)))"
  shows "move_selection direction s =
           Some (s\<lparr>selected_index :=
                    nearest_selectable (items (current_page s)) (selected_index s) direction\<rparr>)
    \<and> ((\<forall>it \<in> set (items (current_page s)). \<not> is_selectable it) \<longrightarrow>
          move_selection direction s = Some s)"
proof -
  define its where "its = items (current_page s)"
  define sel where "sel = selected_index s"
  define P where "P = (\<lambda>j. is_selectable (its ! nat j))"
  have main: "move_selection direction s =
      Some (s\<lparr>selected_index := nearest_selectable its sel direction\<rparr>)"
  proof (cases "its = []")
    case True
    with assms have "sel = - 1" by (simp add: its_def sel_def)
    with True have "nearest_selectable its sel direction = selected_index s"
      by (simp add: nearest_selectable_def visit_order_def sel_def)
    with True show ?thesis
      by (simp add: move_selection_def its_def [symmetric])
  next
    case False
    then have n: "int (length its) \<noteq> 0" by simp
    from assms(1) show ?thesis
    proof
      assume d: "direction = 1"
      have A: "scan_direction its 1 (sel + 1) =
          (case find P [sel + 1 .. int (length its) - 1] of
             Some j \<Rightarrow> Found j | None \<Rightarrow> Exhausted)"
        unfolding P_def using assms(2) by (intro scan_direction_up) (simp add: sel_def)
      have B: "wrap_from_start its sel 0 =
          (case find P [0 .. sel - 1] of Some j \<Rightarrow> Found j | None \<Rightarrow> Exhausted)"
        unfolding P_def using assms(3)
        by (intro wrap_from_start_find) (simp_all add: sel_def its_def)
      show ?thesis
        using n d
        by (simp add: move_selection_def its_def [symmetric] sel_def [symmetric] Let_def A B
            nearest_selectable_def visit_order_def find_append P_def [symmetric]
            split: option.splits)
    next
      assume d: "direction = - 1"
      have A: "scan_direction its (- 1) (sel - 1) =
          (case find P (rev [0 .. sel - 1]) of Some j \<Rightarrow> Found j | None \<Rightarrow> Exhausted)"
        unfolding P_def using assms(3)
        by (intro scan_direction_down) (simp add: sel_def its_def)
      have B: "wrap_from_end its sel (int (length its) - 1) =
          (case find P (rev [sel + 1 .. int (length its) - 1]) of
             Some j \<Rightarrow> Found j | None \<Rightarrow> Exhausted)"
        unfolding P_def using assms(2)
        by (intro wrap_from_end_find) (simp_all add: sel_def)
      show ?thesis
        using n d
        by (simp add: move_selection_def its_def [symmetric] sel_def [symmetric] Let_def A B
            nearest_selectable_def visit_order_def find_append P_def [symmetric]
            split: option.splits)
    qed
  qed
  have none: "move_selection direction s = Some s" if "\<forall>it \<in> set its. \<not> is_selectable it"
  proof -
    have "\<forall>i \<in> set (visit_order (int (length its)) sel direction). 0 \<le> i \<and> i < int (length its)"
      using assms(2,3) by (auto simp: visit_order_def sel_def its_def)
    with that have "find (\<lambda>i. is_selectable (its ! nat i))
        (visit_order (int (length its)) sel direction) = None"
      by (rule find_none_selectable)
    then have "nearest_selectable its sel direction = selected_index s"
      by (simp add: nearest_selectable_def sel_def)
    with main show ?thesis by simp
  qed
  from main none show ?thesis
    unfolding its_def sel_def by blast
qed

lemma nearest_selectable_four_items:
  "nearest_selectable four_items 1 1 = 3"
  "nearest_selectable four_items 3 1 = 1"
  "nearest_selectable four_items 1 (- 1) = 3"
  by code_simp+

theorem move_selection_nearest_witness:
  "selected_index menu_state = 1
   \<and> items (current_page menu_state) = four_items
   \<and> move_selection 1 menu_state = Some (menu_state\<lparr>selected_index := 3\<rparr>)
   \<and> move_selection 1 (menu_state\<lparr>selected_index := 3\<rparr>) = Some (menu_state\<lparr>selected_index := 1\<rparr>)
   \<and> move_selection (- 1) menu_state = Some (menu_state\<lparr>selected_index := 3\<rparr>)"
proof -
  have S: "selected_index menu_state = 1" and I: "items (current_page menu_state) = four_items"
    by (simp_all add: menu_state_def)
  have L: "length four_items = 4"
    by (simp add: four_items_def)
  have A: "move_selection 1 menu_state = Some (menu_state\<lparr>selected_index := 3\<rparr>)"
    using move_selection_nearest [of 1 menu_state]
    by (simp add: S I L nearest_selectable_four_items)
  have B: "move_selection 1 (menu_state\<lparr>selected_index := 3\<rparr>) =
      Some (menu_state\<lparr>selected_index := 1\<rparr>)"
    using move_selection_nearest [of 1 "menu_state\<lparr>selected_index := 3\<rparr>"]
    by (simp add: I L nearest_selectable_four_items)
  have C: "move_selection (- 1) menu_state = Some (menu_state\<lparr>selected_index := 3\<rparr>)"
    using move_selection_nearest [of "- 1" menu_state]
    by (simp add: S I L nearest_selectable_four_items)
  from S I A B C show ?thesis by blast
qed

section \<open>The selected index stays valid\<close>

lemma first_selectable_find:
  "first_selectable its i =
     (case find (\<lambda>j. is_selectable (its ! j)) [i ..< length its] of
        Some j \<Rightarrow> int j | None \<Rightarrow> - 1)"
proof (induction its i rule: first_selectable.induct)
  case (1 its i)
  show ?case
  proof (cases "i < length its")
    case False
    then show ?thesis by (subst first_selectable.simps) simp
  next
    case True
    then have U: "[i ..< length its] = i # [i + 1 ..< length its]"
      by (simp add: upt_rec)
    show ?thesis
    proof (cases "is_selectable (its ! i)")
      case sel: True
      with True show ?thesis
        by (subst first_selectable.simps) (simp add: U)
    next
      case nosel: False
      with True "1.IH" show ?thesis
        by (subst first_selectable.simps) (simp add: U)
    qed
  qed
qed

lemma first_selectable_valid:
  "first_selectable its 0 = - 1 \<or>
   (0 \<le> first_selectable its 0 \<and> first_selectable its 0 < int (length its)
    \<and> is_selectable (its ! nat (first_selectable its 0)))"
proof (cases "find (\<lambda>j. is_selectable (its ! j)) [0 ..< length its]")
  case None
  then show ?thesis by (simp add: first_selectable_find)
next
  case (Some j)
  then have "j < length its" and "is_selectable (its ! j)"
    by (auto simp: find_Some_iff)
  with Some show ?thesis by (simp add: first_selectable_find)
qed

lemma scan_direction_Found:
  "scan_direction its direction i = Found j \<Longrightarrow>
   0 \<le> j \<and> j < int (length its) \<and> is_selectable (its ! nat j)"
proof (induction its direction i rule: scan_direction.induct)
  case (1 its direction new_index)
  show ?case
  proof (cases "0 \<le> new_index \<and> new_index < int (length its)")
    case False
    with "1.prems" show ?thesis by (subst (asm) scan_direction.simps) simp
  next
    case inside: True
    show ?thesis
    proof (cases "is_selectable (its ! nat new_index)")
      case True
      with inside "1.prems" show ?thesis by (subst (asm) scan_direction.simps) auto
    next
      case nosel: False
      show ?thesis
      proof (cases "direction = 0")
        case True
        with inside nosel "1.prems" show ?thesis by (subst (asm) scan_direction.simps) simp
      next
        case False
        with inside nosel "1.prems"
        have "scan_direction its direction (new_index + direction) = Found j"
          by (subst (asm) scan_direction.simps) simp
        with "1.IH" inside nosel False show ?thesis by blast
      qed
    qed
  qed
qed

lemma wrap_from_start_Found:
  "wrap_from_start its selected i = Found j \<Longrightarrow>
   0 \<le> j \<and> j < int (length its) \<and> is_selectable (its ! nat j)"
proof (induction its selected i rule: wrap_from_start.induct)
  case (1 its selected i)
  show ?case
  proof (cases "i < selected \<and> 0 \<le> i \<and> i < int (length its)")
    case False
    with "1.prems" show ?thesis
      by (subst (asm) wrap_from_start.simps) (auto split: if_splits)
  next
    case inside: True
    show ?thesis
    proof (cases "is_selectable (its ! nat i)")
      case True
      with inside "1.prems" show ?thesis by (subst (asm) wrap_from_start.simps) auto
    next
      case False
      with inside "1.prems" have "wrap_from_start its selected (i + 1) = Found j"
        by (subst (asm) wrap_from_start.simps) simp
      with "1.IH" inside False show ?thesis by blast
    qed
  qed
qed

lemma wrap_from_end_Found:
  "wrap_from_end its selected i = Found j \<Longrightarrow>
   0 \<le> j \<and> j < int (length its) \<and> is_selectable (its ! nat j)"
proof (induction its selected i rule: wrap_from_end.induct)
  case (1 its selected i)
  show ?case
  proof (cases "selected < i \<and> 0 \<le> i \<and> i < int (length its)")
    case False
    with "1.prems" show ?thesis
      by (subst (asm) wrap_from_end.simps) (auto split: if_splits)
  next
    case inside: True
    show ?thesis
    proof (cases "is_selectable (its ! nat i)")
      case True
      with inside "1.prems" show ?thesis by (subst (asm) wrap_from_end.simps) auto
    next
      case False
      with inside "1.prems" have "wrap_from_end its selected (i - 1) = Found j"
        by (subst (asm) wrap_from_end.simps) simp
      with "1.IH" inside False show ?thesis by blast
    qed
  qed
qed

lemma move_selection_assigns:
  assumes "move_selection direction s = Some s'"
  shows "current_page s' = current_page s
    \<and> (selected_index s' = selected_index s \<or>
        (0 \<le> selected_index s' \<and> selected_index s' < int (length (items (current_page s)))
         \<and> is_selectable (items (current_page s) ! nat (selected_index s'))))"
proof (cases "items (current_page s) = []")
  case True
  with assms show ?thesis by (simp add: move_selection_def)
next
  case False
  show ?thesis
  proof (cases "scan_direction (items (current_page s)) direction (selected_index s + direction)")
    case (Found j)
    with assms False scan_direction_Found [OF Found] show ?thesis
      by (auto simp: move_selection_def)
  next
    case Stuck
    with assms False show ?thesis by (simp add: move_selection_def)
  next
    case Exhausted
    show ?thesis
    proof (cases "direction > 0")
      case True
      show ?thesis
      proof (cases "wrap_from_start (items (current_page s)) (selected_index s) 0")
        case (Found j)
        with assms False Exhausted True wrap_from_start_Found [OF Found] show ?thesis
          by (auto simp: move_selection_def)
      qed (use assms False Exhausted True in \<open>auto simp: move_selection_def\<close>)
    next
      case down: False
      show ?thesis
      proof (cases "wrap_from_end (items (current_page s)) (selected_index s)
                      (int (length (items (current_page s))) - 1)")
        case (Found j)
        with assms False Exhausted down wrap_from_end_Found [OF Found] show ?thesis
          by (auto simp: move_selection_def)
      qed (use assms False Exhausted down in \<open>auto simp: move_selection_def\<close>)
    qed
  qed
qed

lemma selection_valid_move_selection:
  "selection_valid s \<Longrightarrow> move_selection direction s = Some s' \<Longrightarrow> selection_valid s'"
  using move_selection_assigns [of direction s s']
  by (auto simp: selection_valid_def)

lemma selection_valid_loaded:
  "selection_valid (s\<lparr>current_page := page, history := h,
      selected_index := first_selectable (items page) 0, is_loading := l,
      status_message := m\<rparr>)"
  using first_selectable_valid [of "items page"] by (simp add: selection_valid_def)

lemma selection_valid_navigate_to:
  "selection_valid s \<Longrightarrow> selection_valid (navigate_to net host selector port expected_type s)"
proof (cases "fst (fetch_gopher net host selector port s) = []")
  case True
  assume "selection_valid s"
  with True show ?thesis
    by (simp add: navigate_to_cases selection_valid_def)
next
  case False
  then show ?thesis
    by (simp add: navigate_to_cases Let_def selection_valid_loaded del: One_nat_def)
qed

lemma selection_valid_go_back:
  "selection_valid s \<Longrightarrow> selection_valid (snd (go_back net s))"
  by (simp add: go_back_cases Let_def selection_valid_loaded)
     (simp add: selection_valid_def)

lemma reachable_selection_valid: "reachable s \<Longrightarrow> selection_valid s"
proof (induction rule: reachable.induct)
  case reachable_initial
  show ?case by (simp add: selection_valid_def initial_state_def)
next
  case (reachable_navigate s net host selector port expected_type)
  then show ?case by (simp add: selection_valid_navigate_to)
next
  case (reachable_back s net)
  then show ?case by (simp add: selection_valid_go_back)
next
  case (reachable_move s direction s')
  then show ?case using selection_valid_move_selection by blast
qed

lemma selected_index_navigate_to:
  "fst (fetch_gopher net host selector port s) \<noteq> [] \<Longrightarrow>
   selected_index (navigate_to net host selector port expected_type s) =
     first_selectable (items (current_page (navigate_to net host selector port expected_type s))) 0"
  by (simp add: navigate_to_cases Let_def del: One_nat_def)

lemma selected_index_go_back:
  "fst (go_back net s) \<Longrightarrow>
   selected_index (snd (go_back net s)) =
     first_selectable (items (current_page (snd (go_back net s)))) 0"
  by (simp add: go_back_cases Let_def split: if_splits)

text \<open>
  Claim C10. In every reachable state the selected index is \<open>-1\<close> or the index of a
  selectable item of the page, and each of \<^verbatim>\<open>navigate_to\<close>, \<^verbatim>\<open>go_back\<close> and
  \<^verbatim>\<open>move_selection\<close> keeps it so. A successful load sets it to the first selectable
  index of the new page, \<open>-1\<close> when the page has none; \<^verbatim>\<open>move_selection\<close> leaves the page
  alone and either leaves the index alone or sets it to the index of a selectable item.
\<close>

theorem selection_stays_valid:
  "(reachable s \<longrightarrow> selection_valid s)
   \<and> (selection_valid s \<longrightarrow>
        selection_valid (navigate_to net host selector port expected_type s)
        \<and> selection_valid (snd (go_back net s))
        \<and> (move_selection direction s = Some s' \<longrightarrow> selection_valid s'))
   \<and> (fst (fetch_gopher net host selector port s) \<noteq> [] \<longrightarrow>
        selected_index (navigate_to net host selector port expected_type s) =
          first_selectable
            (items (current_page (navigate_to net host selector port expected_type s))) 0)
   \<and> (fst (go_back net s) \<longrightarrow>
        selected_index (snd (go_back net s)) =
          first_selectable (items (current_page (snd (go_back net s)))) 0)
   \<and> first_selectable its 0 =
        (case find (\<lambda>j. is_selectable (its ! j)) [0 ..< length its] of
           Some j \<Rightarrow> int j | None \<Rightarrow> - 1)
   \<and> (move_selection direction s = Some s' \<longrightarrow>
        current_page s' = current_page s
        \<and> (selected_index s' = selected_index s \<or>
            (0 \<le> selected_index s'
             \<and> selected_index s' < int (length (items (current_page s)))
             \<and> is_selectable (items (current_page s) ! nat (selected_index s')))))"
  using reachable_selection_valid [of s]
    selection_valid_navigate_to [of s net host selector port expected_type]
    selection_valid_go_back [of s net]
    selection_valid_move_selection [of s direction s']
    selected_index_navigate_to [of net host selector port s expected_type]
    selected_index_go_back [of net s]
    first_selectable_find [of its 0]
    move_selection_assigns [of direction s s']
  by blast

lemma navigate_menu_net:
  "items (current_page (navigate_to menu_net ''ex.com'' ''/'' 70 (CHR ''1'') initial_state)) =
     [\<lparr>item_type = CHR ''1'', item_display = ''A'', item_selector = ''foo'',
        item_host = ''ex.com'', item_port = Some 70\<rparr>]"
proof -
  have "menu_response \<noteq> []" by (simp add: menu_response_def)
  then show ?thesis
    by (simp add: navigate_to_cases fetch_menu_net Let_def items_menu_response
        del: One_nat_def)
qed

theorem selection_stays_valid_witness:
  "reachable (navigate_to menu_net ''ex.com'' ''/'' 70 (CHR ''1'') initial_state)
   \<and> fst (fetch_gopher menu_net ''ex.com'' ''/'' 70 initial_state) \<noteq> []
   \<and> selection_valid (navigate_to menu_net ''ex.com'' ''/'' 70 (CHR ''1'') initial_state)
   \<and> selected_index (navigate_to menu_net ''ex.com'' ''/'' 70 (CHR ''1'') initial_state) = 0"
proof -
  let ?s = "navigate_to menu_net ''ex.com'' ''/'' 70 (CHR ''1'') initial_state"
  have R: "reachable ?s"
    by (intro reachable_navigate reachable_initial)
  have F: "fst (fetch_gopher menu_net ''ex.com'' ''/'' 70 initial_state) \<noteq> []"
    by (simp add: fetch_menu_net menu_response_def)
  from selection_stays_valid [of ?s] R have V: "selection_valid ?s"
    by blast
  from selection_stays_valid [of initial_state menu_net "''ex.com''" "''/''" 70 "CHR ''1''"] F
  have "selected_index ?s = first_selectable (items (current_page ?s)) 0"
    by blast
  also have "\<dots> = 0"
    unfolding navigate_menu_net by code_simp
  finally have S: "selected_index ?s = 0" .
  from R F V S show ?thesis by blast
qed

end
